theory Spec2Isabelle
  imports Main "HOL-Library.Word"
begin

section \<open>Data model of \<open>src/lib/builder/writer.ts\<close>\<close>

text \<open>
  JavaScript strings are sequences of code units; the writer only ever compares a code
  unit with 13 (carriage return) and 10 (line feed), so a \<^typ>\<open>string\<close> stands for the
  sequence of code units, one \<^typ>\<open>char\<close> per unit.  A path is a string or
  \<open>undefined\<close> (\<open>None\<close>).
\<close>

type_synonym path = "string option"

definition CR :: char where
  "CR = CHR 0x0D"

definition LF :: char where
  "LF = CHR 0x0A"

text \<open>
  One mapping point, as the object literals of \<open>SourceMapWriter.write\<close> build it
  (lines 177-182 and 208-214).  \<open>nameIndex\<close> is absent (\<open>None\<close>) in the first literal.
\<close>

record Mapping =
  column :: int
  sourceIndex :: nat
  sourceLine :: int
  sourceColumn :: int
  nameIndex :: "nat option"

text \<open>
  The class \<open>SourceMapBuilder\<close> lives in \<open>../utility/sourceMap\<close>, which is not part of
  the sources at hand.  The writer uses three of its members: the field \<open>file\<close>, the
  list \<open>sources\<close>, and the sparse array \<open>mappings\<close> from a line number to the array of
  that line's mapping points.
\<close>

record SourceMapBuilder =
  builderFile :: path
  sources :: "path list"
  mappings :: "nat \<rightharpoonup> Mapping list"

text \<open>
  The class \<open>File\<close> lives in \<open>./file\<close>; the writer reads \<open>srcPath\<close>, \<open>destPath\<close> and
  \<open>sourceMapBuilder\<close> (absent for a file that carries no source map).
\<close>

record File =
  srcPath :: path
  destPath :: path
  sourceMapBuilder :: "SourceMapBuilder option"

record WriterOptions =
  sourceMap :: bool
  optIndentChar :: "string option"

record Writer =
  targetFile :: File
  indentString :: string
  indentChar :: string
  content :: string

record SourceMapWriter = Writer +
  smBuilder :: SourceMapBuilder
  currentLine :: nat
  currentColumn :: int


section \<open>The plain writer\<close>

definition Writer_new :: "File \<Rightarrow> WriterOptions option \<Rightarrow> Writer" where
  "Writer_new f options =
     \<lparr>targetFile = f, indentString = [],
      indentChar = (case options of
                      None \<Rightarrow> [CHR 0x09]
                    | Some opts \<Rightarrow> (case optIndentChar opts of None \<Rightarrow> [CHR 0x09] | Some c \<Rightarrow> c)),
      content = []\<rparr>"

definition indent :: "'a Writer_scheme \<Rightarrow> 'a Writer_scheme" where
  "indent w = w\<lparr>indentString := indentString w @ indentChar w\<rparr>"

text \<open>
  \<open>substr(0, n)\<close> with a negative \<open>n\<close> yields the empty string, which is what \<^const>\<open>take\<close>
  does with the truncated difference.
\<close>

definition unindent :: "'a Writer_scheme \<Rightarrow> 'a Writer_scheme" where
  "unindent w =
     w\<lparr>indentString := take (length (indentString w) - length (indentChar w)) (indentString w)\<rparr>"

text \<open>
  Line 72: \<open>content.replace(/\r\n?|\n/g, "$&" + indentString)\<close>.  The second argument of
  \<open>replace\<close> is a replacement pattern, which is expanded anew for every match.  The
  regular expression has no groups, so the sequences with a meaning are: two dollar
  signs (one dollar sign), a dollar sign and an ampersand (the match), a dollar sign and
  a grave accent (the text before the match), a dollar sign and an apostrophe (the text
  after the match); every other character, a dollar sign too, stands for itself.
\<close>

fun expandReplacement :: "string \<Rightarrow> string \<Rightarrow> string \<Rightarrow> string \<Rightarrow> string" where
  "expandReplacement matched before after [] = []"
| "expandReplacement matched before after [c] = [c]"
| "expandReplacement matched before after (c # d # rest) =
     (if c = CHR 0x24 then
        (if d = CHR 0x24 then CHR 0x24 # expandReplacement matched before after rest
         else if d = CHR 0x26 then matched @ expandReplacement matched before after rest
         else if d = CHR 0x60 then before @ expandReplacement matched before after rest
         else if d = CHR 0x27 then after @ expandReplacement matched before after rest
         else c # expandReplacement matched before after (d # rest))
      else c # expandReplacement matched before after (d # rest))"

text \<open>
  The matches of \<open>/\r\n?|\n/g\<close>, from left to right: a carriage return with the line feed
  that follows it, a lone carriage return, a lone line feed.  Each is replaced by the
  expansion of the pattern; the second argument is the text before the position reached.
\<close>

fun replaceBreaks :: "string \<Rightarrow> string \<Rightarrow> string \<Rightarrow> string" where
  "replaceBreaks replacement before [] = []"
| "replaceBreaks replacement before (c # cs) =
     (if c = CR then
        (case cs of
           [] \<Rightarrow> expandReplacement [CR] before [] replacement
         | d # ds \<Rightarrow>
             if d = LF
             then expandReplacement [CR, LF] before ds replacement @
                  replaceBreaks replacement (before @ [CR, LF]) ds
             else expandReplacement [CR] before cs replacement @
                  replaceBreaks replacement (before @ [CR]) cs)
      else if c = LF then
        expandReplacement [LF] before cs replacement @ replaceBreaks replacement (before @ [LF]) cs
      else c # replaceBreaks replacement (before @ [c]) cs)"

definition Writer_write :: "'a Writer_scheme \<Rightarrow> string \<Rightarrow> 'a Writer_scheme" where
  "Writer_write w text =
     w\<lparr>content := content w @
        (if indentString w \<noteq> []
         then replaceBreaks ([CHR 0x24, CHR 0x26] @ indentString w) [] text
         else text)\<rparr>"


section \<open>The source map builder, as far as the writer uses it\<close>

fun indexOf :: "'a list \<Rightarrow> 'a \<Rightarrow> nat option" where
  "indexOf [] x = None"
| "indexOf (y # ys) x = (if y = x then Some 0 else map_option Suc (indexOf ys x))"

text \<open>
  Modelled from the spec: \<open>SourceMapBuilder.addSource\<close> (defined in
  \<open>../utility/sourceMap\<close>, which is missing).  The spec calls the sources list "ordered,
  deduplicated by original-path identity" and the index the writer stores
  "index-of(originFile path)": a path that is already listed keeps its index, a new one
  is appended and gets the next index.  The result is the index and the updated builder.
\<close>

definition addSource :: "SourceMapBuilder \<Rightarrow> path \<Rightarrow> nat \<times> SourceMapBuilder" where
  "addSource b p =
     (case indexOf (sources b) p of
        Some k \<Rightarrow> (k, b)
      | None \<Rightarrow> (length (sources b), b\<lparr>sources := sources b @ [p]\<rparr>))"

text \<open>Reading an array: \<open>undefined\<close> out of range.\<close>

definition sourceAt :: "path list \<Rightarrow> nat \<Rightarrow> path" where
  "sourceAt xs k = (if k < length xs then xs ! k else None)"

text \<open>\<open>srcSourceMap.mappings[sourceLine] || []\<close>, for a line number that may be anything.\<close>

definition mappingsAt :: "SourceMapBuilder \<Rightarrow> int \<Rightarrow> Mapping list" where
  "mappingsAt b l =
     (if l < 0 then []
      else (case mappings b (nat l) of None \<Rightarrow> [] | Some ms \<Rightarrow> ms))"

text \<open>\<open>sourceFile.srcPath || sourceFile.destPath || ""\<close>\<close>

definition truthy :: "path \<Rightarrow> bool" where
  "truthy p = (case p of None \<Rightarrow> False | Some s \<Rightarrow> s \<noteq> [])"

definition originPath :: "File \<Rightarrow> path" where
  "originPath f =
     (if truthy (srcPath f) then srcPath f
      else if truthy (destPath f) then destPath f
      else Some [])"


section \<open>The writer with source maps\<close>

definition SourceMapWriter_new :: "File \<Rightarrow> WriterOptions option \<Rightarrow> SourceMapWriter" where
  "SourceMapWriter_new f options =
     Writer.extend (Writer_new f options)
       (SourceMapWriter.fields
          \<lparr>builderFile = srcPath f, sources = [], mappings = Map.empty\<rparr> 0 0)"

text \<open>
  Lines 139-145: the index of the last carriage return or line feed, \<open>-1\<close> without one.
  The second argument is the loop variable plus one.
\<close>

fun scanLastLineBreak :: "string \<Rightarrow> nat \<Rightarrow> int" where
  "scanLastLineBreak text 0 = - 1"
| "scanLastLineBreak text (Suc n) =
     (if text ! n = CR \<or> text ! n = LF then int n else scanLastLineBreak text n)"

definition lastLineBreakOf :: "string \<Rightarrow> int" where
  "lastLineBreakOf text = scanLastLineBreak text (length text)"

text \<open>
  Lines 186-216: the loop over the mapping points that the origin map has for the
  origin line.  \<open>continue\<close> goes on with the rest, \<open>break\<close> returns.  The loop changes
  the sources of the writer's builder (through \<open>addSource\<close>) and the array of the
  current line, which are threaded as a pair.  \<open>i\<close>, \<open>lastLineBreak\<close>, the length of
  the text, \<open>sourceColumn\<close> and the current column do not change during the loop.
  The origin map is read only: it is taken to be another object than the builder of
  the writer, and each of its points to have a source index.
\<close>

fun copyMappings ::
  "path list \<Rightarrow> nat \<Rightarrow> int \<Rightarrow> nat \<Rightarrow> int \<Rightarrow> int \<Rightarrow> Mapping list \<Rightarrow>
   SourceMapBuilder \<times> Mapping list \<Rightarrow> SourceMapBuilder \<times> Mapping list" where
  "copyMappings srcSources i lastLineBreak len srcColumn curColumn [] acc = acc"
| "copyMappings srcSources i lastLineBreak len srcColumn curColumn (m # rest) (b, line) =
     (if i = 0 \<and> column m < srcColumn then
        copyMappings srcSources i lastLineBreak len srcColumn curColumn rest (b, line)
      else if int i = lastLineBreak \<and>
              column m \<ge> int len + (if i = 0 then srcColumn else - lastLineBreak) then
        (b, line)
      else
        (let newColumn = column m - srcColumn + curColumn;
             line1 = (if line \<noteq> [] \<and> column (last line) = newColumn then butlast line else line);
             (k, b1) = addSource b (sourceAt srcSources (sourceIndex m))
         in copyMappings srcSources i lastLineBreak len srcColumn curColumn rest
              (b1, line1 @ [\<lparr>column = newColumn, sourceIndex = k,
                             sourceLine = sourceLine m, sourceColumn = sourceColumn m,
                             nameIndex = nameIndex m\<rparr>])))"

text \<open>
  Lines 176-217: the mapping added at the start of the text and after a line break.
  The array of the current line is created when absent, the point of the origin is
  pushed, the points of the origin map are copied, and the array is stored back (in the
  source the array is shared with the builder, so every push is seen there at once).
\<close>

definition addMapping ::
  "string \<Rightarrow> int \<Rightarrow> File \<Rightarrow> nat \<Rightarrow> int \<Rightarrow> int \<Rightarrow> SourceMapWriter \<Rightarrow> SourceMapWriter" where
  "addMapping text lastLineBreak sourceFile i srcLine srcColumn w =
     (let line0 = (case mappings (smBuilder w) (currentLine w) of None \<Rightarrow> [] | Some ms \<Rightarrow> ms);
          (k, b1) = addSource (smBuilder w) (originPath sourceFile);
          line1 = line0 @ [\<lparr>column = currentColumn w, sourceIndex = k,
                            sourceLine = srcLine, sourceColumn = srcColumn,
                            nameIndex = None\<rparr>];
          (b2, line2) =
            (case sourceMapBuilder sourceFile of
               None \<Rightarrow> (b1, line1)
             | Some srcSourceMap \<Rightarrow>
                 copyMappings (sources srcSourceMap) i lastLineBreak (length text) srcColumn
                   (currentColumn w) (mappingsAt srcSourceMap srcLine) (b1, line1))
      in w\<lparr>smBuilder := b2\<lparr>mappings := (mappings b2)(currentLine w \<mapsto> line2)\<rparr>\<rparr>)"

text \<open>
  Lines 149-219: one round of the loop over the characters.  The state is the writer
  with the two parameters \<open>sourceLine\<close> and \<open>sourceColumn\<close>, which the loop assigns to
  (they are called \<open>srcLine\<close> and \<open>srcColumn\<close> here, apart from the fields of a mapping
  point); the result also gives the value of \<open>i\<close> at the end of the round (it is one more than
  at the start when a carriage return and a line feed were taken together).
\<close>

definition writeStep ::
  "string \<Rightarrow> int \<Rightarrow> File option \<Rightarrow> nat \<Rightarrow> SourceMapWriter \<times> int \<times> int \<Rightarrow>
   nat \<times> SourceMapWriter \<times> int \<times> int" where
  "writeStep text lastLineBreak sourceFile i st =
     (case st of (w, srcLine, srcColumn) \<Rightarrow>
        let w1 = w\<lparr>content := content w @ [text ! i]\<rparr>;
            ch = text ! i;
            (i1, w2, ch1) =
              (if ch = CR then
                 (if i + 1 < length text \<and> text ! (i + 1) = LF
                  then (i + 1, w1\<lparr>content := content w1 @ [LF]\<rparr>, LF)
                  else (i, w1, LF))
               else (i, w1, ch));
            (w3, srcLine1, srcColumn1) =
              (if ch1 = LF then
                 ((if indentString w2 \<noteq> [] then
                     w2\<lparr>currentLine := currentLine w2 + 1,
                        content := content w2 @ indentString w2,
                        currentColumn := int (length (indentString w2))\<rparr>
                   else
                     w2\<lparr>currentLine := currentLine w2 + 1, currentColumn := 0\<rparr>),
                  srcLine + 1, 0)
               else (w2, srcLine, srcColumn));
            w4 = (case sourceFile of
                    None \<Rightarrow> w3
                  | Some f \<Rightarrow>
                      if ch1 = LF \<or> i1 = 0
                      then addMapping text lastLineBreak f i1 srcLine1 srcColumn1 w3
                      else w3)
        in (i1, w4, srcLine1, srcColumn1))"

lemma writeStep_index:
  "i \<le> fst (writeStep text lastLineBreak sourceFile i st)"
  by (cases st) (simp add: writeStep_def Let_def split: prod.splits if_splits)

text \<open>Lines 148-221: the loop, from the index \<open>i\<close> on.\<close>

function writeLoop ::
  "string \<Rightarrow> int \<Rightarrow> File option \<Rightarrow> nat \<Rightarrow> SourceMapWriter \<times> int \<times> int \<Rightarrow>
   SourceMapWriter \<times> int \<times> int" where
  "writeLoop text lastLineBreak sourceFile i st =
     (if i < length text then
        (case writeStep text lastLineBreak sourceFile i st of
           (i1, st1) \<Rightarrow> writeLoop text lastLineBreak sourceFile (i1 + 1) st1)
      else st)"
  by pat_completeness auto
termination
proof (relation "measure (\<lambda>(text, lastLineBreak, sourceFile, i, st). length text - i)")
  show "wf (measure (\<lambda>(text, lastLineBreak, sourceFile, i, st). length text - i))"
    by simp
next
  fix cs :: string and llb :: int and sf :: "File option"
    and i :: nat and st :: "SourceMapWriter \<times> int \<times> int"
    and i1 :: nat and st1 :: "SourceMapWriter \<times> int \<times> int"
  assume less: "i < length cs" and step: "(i1, st1) = writeStep cs llb sf i st"
  have "fst (writeStep cs llb sf i st) = i1"
    by (simp flip: step)
  then have "i \<le> i1"
    using writeStep_index [of i cs llb sf st] by simp
  with less
  show "((cs, llb, sf, i1 + 1, st1), (cs, llb, sf, i, st))
          \<in> measure (\<lambda>(text, lastLineBreak, sourceFile, i, st). length text - i)"
    by simp
qed

text \<open>
  Lines 132-226.  Without a \<open>sourceFile\<close> the parameters \<open>sourceLine\<close> and \<open>sourceColumn\<close>
  are never read (line 173 guards every use), so any numbers may stand for them; with
  a \<open>sourceFile\<close> they are taken to be numbers, as the signature declares.
\<close>

definition SourceMapWriter_write ::
  "SourceMapWriter \<Rightarrow> string \<Rightarrow> File option \<Rightarrow> int \<Rightarrow> int \<Rightarrow> SourceMapWriter" where
  "SourceMapWriter_write w text sourceFile srcLine srcColumn =
     (let lastLineBreak = lastLineBreakOf text;
          w1 = fst (writeLoop text lastLineBreak sourceFile 0 (w, srcLine, srcColumn))
      in w1\<lparr>currentColumn :=
              int (length text) +
              (if lastLineBreak < 0 then currentColumn w1
               else - lastLineBreak +
                    (if indentString w1 \<noteq> [] then int (length (indentString w1)) else 0))\<rparr>)"


section \<open>The buffer stream\<close>

text \<open>
  A \<open>Buffer\<close> is a list of bytes whose length is fixed at allocation.
  \<open>Buffer.allocUnsafe(n)\<close> gives \<open>n\<close> bytes of whatever the memory holds: the
  parameter \<open>junk\<close> stands for that content, and every statement below holds for all of
  them.  A negative size raises a \<open>RangeError\<close>.
\<close>

type_synonym byte = "8 word"

datatype error = RangeError

text \<open>
  The two private fields \<open>_buffer\<close> and \<open>_length\<close>; the getter \<open>length\<close> reads the second
  (it is called \<open>bufLength\<close> here, apart from the length of lists).
\<close>

record BufferStream =
  buffer :: "byte list"
  bufLength :: nat

definition allocUnsafe :: "(nat \<Rightarrow> byte) \<Rightarrow> nat \<Rightarrow> byte list" where
  "allocUnsafe junk n = map junk [0..<n]"

text \<open>
  \<open>source.copy(target, targetStart, sourceStart, sourceEnd)\<close> copies as many bytes as the
  source range, the room left in the target and the source itself allow, and leaves the
  rest of the target as it is.  The result is the target after the call.
\<close>

definition copy :: "byte list \<Rightarrow> byte list \<Rightarrow> nat \<Rightarrow> nat \<Rightarrow> nat \<Rightarrow> byte list" where
  "copy source target targetStart sourceStart sourceEnd =
     (let n = min (min (sourceEnd - sourceStart) (length target - targetStart))
                  (length source - sourceStart)
      in take targetStart target @ take n (drop sourceStart source) @ drop (targetStart + n) target)"

text \<open>Line 283: the getter \<open>capacity\<close>.\<close>

definition capacity :: "BufferStream \<Rightarrow> nat" where
  "capacity s = length (buffer s)"

text \<open>Lines 268 and 273: a new stream has 128 * 1024 bytes and length 0.\<close>

definition BufferStream_new :: "(nat \<Rightarrow> byte) \<Rightarrow> BufferStream" where
  "BufferStream_new junk = \<lparr>buffer = allocUnsafe junk (128 * 1024), bufLength = 0\<rparr>"

text \<open>
  Lines 299-306.  The new size is the smaller of the requested length and twice the
  capacity minus one; the bytes \<open>[0, _length)\<close> are copied into the new buffer.
\<close>

definition ensureCapacity :: "(nat \<Rightarrow> byte) \<Rightarrow> BufferStream \<Rightarrow> int \<Rightarrow> error + BufferStream" where
  "ensureCapacity junk s len =
     (if len < int (capacity s) then Inr s
      else
        let len1 = min len (int (capacity s) * 2 - 1)
        in if len1 < 0 then Inl RangeError
           else Inr (s\<lparr>buffer := copy (buffer s) (allocUnsafe junk (nat len1)) 0 0 (bufLength s)\<rparr>))"

text \<open>Lines 315-320: \<open>_write\<close> (the callback is called last and is left out).\<close>

definition BufferStream_write :: "(nat \<Rightarrow> byte) \<Rightarrow> BufferStream \<Rightarrow> byte list \<Rightarrow> error + BufferStream" where
  "BufferStream_write junk s chunk =
     (case ensureCapacity junk s (int (bufLength s + length chunk)) of
        Inl e \<Rightarrow> Inl e
      | Inr s1 \<Rightarrow>
          Inr (s1\<lparr>buffer := copy chunk (buffer s1) (bufLength s1) 0 (length chunk),
                   bufLength := bufLength s1 + length chunk\<rparr>))"

text \<open>
  Lines 327-331.  Allocating a negative size raises a \<open>RangeError\<close>, and so does copying
  a non-empty range that starts beyond the end of the source.
\<close>

definition toBuffer :: "(nat \<Rightarrow> byte) \<Rightarrow> BufferStream \<Rightarrow> nat \<Rightarrow> nat \<Rightarrow> error + byte list" where
  "toBuffer junk s startPos endPos =
     (if endPos < startPos then Inl RangeError
      else if startPos < endPos \<and> capacity s < startPos then Inl RangeError
      else Inr (copy (buffer s) (allocUnsafe junk (endPos - startPos)) 0 startPos endPos))"


section \<open>Files and writers used as examples\<close>

definition outFile :: File where
  "outFile = \<lparr>srcPath = Some ''out.js'', destPath = None, sourceMapBuilder = None\<rparr>"

definition fileA :: File where
  "fileA = \<lparr>srcPath = Some ''a.js'', destPath = None, sourceMapBuilder = None\<rparr>"

definition freshWriter :: SourceMapWriter where
  "freshWriter = SourceMapWriter_new outFile None"

text \<open>
  A file \<open>b.js\<close> made from \<open>o.js\<close>, with its source map: line 0 has points at the
  columns 0, 2 and 5, line 1 at the columns 0, 2 and 3.
\<close>

definition mapB :: SourceMapBuilder where
  "mapB =
     \<lparr>builderFile = Some ''b.js'', sources = [Some ''o.js''],
      mappings =
        [0 \<mapsto> [\<lparr>column = 0, sourceIndex = 0, sourceLine = 0, sourceColumn = 10, nameIndex = None\<rparr>,
                \<lparr>column = 2, sourceIndex = 0, sourceLine = 0, sourceColumn = 12, nameIndex = None\<rparr>,
                \<lparr>column = 5, sourceIndex = 0, sourceLine = 0, sourceColumn = 15, nameIndex = None\<rparr>],
         1 \<mapsto> [\<lparr>column = 0, sourceIndex = 0, sourceLine = 1, sourceColumn = 0, nameIndex = None\<rparr>,
                \<lparr>column = 2, sourceIndex = 0, sourceLine = 1, sourceColumn = 2, nameIndex = None\<rparr>,
                \<lparr>column = 3, sourceIndex = 0, sourceLine = 1, sourceColumn = 3, nameIndex = None\<rparr>]]\<rparr>"

definition fileB :: File where
  "fileB = \<lparr>srcPath = Some ''b.js'', destPath = None, sourceMapBuilder = Some mapB\<rparr>"









section \<open>Notions used to state the properties\<close>

text \<open>
  A text with the indent string put after each of its line breaks (a carriage return
  with the line feed that follows it, a lone carriage return, a lone line feed), the
  line breaks kept as they are.
\<close>

fun addIndent :: "string \<Rightarrow> string \<Rightarrow> string" where
  "addIndent ind [] = []"
| "addIndent ind (c # cs) =
     (if c = CR then
        (case cs of
           [] \<Rightarrow> CR # ind
         | d # ds \<Rightarrow> if d = LF then CR # LF # ind @ addIndent ind ds
                    else CR # ind @ addIndent ind cs)
      else if c = LF then LF # ind @ addIndent ind cs
      else c # addIndent ind cs)"

text \<open>
  A line break character; a carriage return followed by a line feed at an index; the
  number of line breaks of a text, where such a pair counts once; the text after the
  last line break character.
\<close>

fun countBreaks :: "string \<Rightarrow> nat" where
  "countBreaks [] = 0"
| "countBreaks (c # cs) =
     (if c = CR then
        (case cs of
           [] \<Rightarrow> 1
         | d # ds \<Rightarrow> if d = LF then 1 + countBreaks ds else 1 + countBreaks cs)
      else if c = LF then 1 + countBreaks cs
      else countBreaks cs)"

definition isBreak :: "char \<Rightarrow> bool" where
  "isBreak c = (c = CR \<or> c = LF)"

definition lastLine :: "string \<Rightarrow> string" where
  "lastLine text = rev (takeWhile (\<lambda>c. \<not> isBreak c) (rev text))"

definition crlfAt :: "string \<Rightarrow> nat \<Rightarrow> bool" where
  "crlfAt text i = (text ! i = CR \<and> i + 1 < length text \<and> text ! (i + 1) = LF)"


text \<open>
  The points of a line of a mapping table (none when the line is absent); a table with
  one more point at the end of a line; the point that the writer adds for the origin
  itself (lines 177-182); and the points that a text gives rise to after its line breaks
  when the origin has no source map of its own: one per line break, on the next line at
  the column of the indent, for the next source line at column 0.
\<close>

definition mappingsOf :: "SourceMapBuilder \<Rightarrow> nat \<Rightarrow> Mapping list" where
  "mappingsOf b l = (case mappings b l of None \<Rightarrow> [] | Some ms \<Rightarrow> ms)"

definition pushMapping :: "SourceMapBuilder \<Rightarrow> nat \<Rightarrow> Mapping \<Rightarrow> SourceMapBuilder" where
  "pushMapping b l e = b\<lparr>mappings := (mappings b)(l \<mapsto> mappingsOf b l @ [e])\<rparr>"

definition originMapping :: "int \<Rightarrow> nat \<Rightarrow> int \<Rightarrow> int \<Rightarrow> Mapping" where
  "originMapping col k srcLine srcColumn =
     \<lparr>column = col, sourceIndex = k, sourceLine = srcLine, sourceColumn = srcColumn,
      nameIndex = None\<rparr>"

fun pushBreaks :: "nat \<Rightarrow> int \<Rightarrow> string \<Rightarrow> nat \<Rightarrow> int \<Rightarrow> SourceMapBuilder \<Rightarrow> SourceMapBuilder" where
  "pushBreaks k ind [] l srcLine b = b"
| "pushBreaks k ind (c # cs) l srcLine b =
     (if c = CR then
        (case cs of
           [] \<Rightarrow> pushMapping b (l + 1) (originMapping ind k (srcLine + 1) 0)
         | d # ds \<Rightarrow>
             if d = LF
             then pushBreaks k ind ds (l + 1) (srcLine + 1)
                    (pushMapping b (l + 1) (originMapping ind k (srcLine + 1) 0))
             else pushBreaks k ind cs (l + 1) (srcLine + 1)
                    (pushMapping b (l + 1) (originMapping ind k (srcLine + 1) 0)))
      else if c = LF then
        pushBreaks k ind cs (l + 1) (srcLine + 1)
          (pushMapping b (l + 1) (originMapping ind k (srcLine + 1) 0))
      else pushBreaks k ind cs l srcLine b)"

text \<open>
  A point \<open>e\<close> of the builder \<open>b\<close> is the point \<open>m\<close> of an origin map with its source
  re-pointed: its source index names, in the sources of \<open>b\<close>, the path that the source
  index of \<open>m\<close> names in the sources of the origin map, and its source line, source
  column and name index are those of \<open>m\<close>.  A copied point is one that is re-pointed
  from some point of the origin map.  A point of the origin is one whose source index
  names the path of the origin file itself and that has no name index.  A builder
  grows from another when its sources extend the other's and each of its points is a
  point of the other on the same line, a point of the origin or a copied point.
\<close>

definition repointed :: "SourceMapBuilder \<Rightarrow> SourceMapBuilder \<Rightarrow> Mapping \<Rightarrow> Mapping \<Rightarrow> bool" where
  "repointed srcSourceMap b m e \<longleftrightarrow>
     sourceIndex e < length (sources b) \<and>
     sources b ! sourceIndex e = sourceAt (sources srcSourceMap) (sourceIndex m) \<and>
     sourceLine e = sourceLine m \<and> sourceColumn e = sourceColumn m \<and>
     nameIndex e = nameIndex m"

definition copiedEntry :: "SourceMapBuilder \<Rightarrow> SourceMapBuilder \<Rightarrow> Mapping \<Rightarrow> bool" where
  "copiedEntry srcSourceMap b e \<longleftrightarrow>
     (\<exists>l m. m \<in> set (mappingsAt srcSourceMap l) \<and> repointed srcSourceMap b m e)"

definition originEntry :: "File \<Rightarrow> SourceMapBuilder \<Rightarrow> Mapping \<Rightarrow> bool" where
  "originEntry f b e \<longleftrightarrow>
     sourceIndex e < length (sources b) \<and> sources b ! sourceIndex e = originPath f \<and>
     nameIndex e = None"



text \<open>
  Where the points are added, as a recursion over the text: the writer moved to the start
  of the next line (the line advanced by one, the column at the indent), and the code of
  lines 176-217 run once behind every line break of the text (a carriage return with the
  line feed that follows it counts once, and the index is then that of the line feed), on
  the next line, for the next source line at column 0.  The arguments are the source
  file, the whole text with the index of its last line break character, the rest of the
  text with the index of its first character, and the source line.
\<close>

definition nextLine :: "SourceMapWriter \<Rightarrow> SourceMapWriter" where
  "nextLine w = w\<lparr>currentLine := currentLine w + 1,
                  currentColumn := int (length (indentString w))\<rparr>"

fun emitAfterBreaks ::
  "File \<Rightarrow> string \<Rightarrow> int \<Rightarrow> string \<Rightarrow> nat \<Rightarrow> int \<Rightarrow> SourceMapWriter \<Rightarrow> SourceMapWriter" where
  "emitAfterBreaks f whole lastLineBreak [] i srcLine w = w"
| "emitAfterBreaks f whole lastLineBreak (c # cs) i srcLine w =
     (if c = CR then
        (case cs of
           [] \<Rightarrow> addMapping whole lastLineBreak f i (srcLine + 1) 0 (nextLine w)
         | d # ds \<Rightarrow>
             if d = LF
             then emitAfterBreaks f whole lastLineBreak ds (i + 2) (srcLine + 1)
                    (addMapping whole lastLineBreak f (i + 1) (srcLine + 1) 0 (nextLine w))
             else emitAfterBreaks f whole lastLineBreak cs (i + 1) (srcLine + 1)
                    (addMapping whole lastLineBreak f i (srcLine + 1) 0 (nextLine w)))
      else if c = LF then
        emitAfterBreaks f whole lastLineBreak cs (i + 1) (srcLine + 1)
          (addMapping whole lastLineBreak f i (srcLine + 1) 0 (nextLine w))
      else emitAfterBreaks f whole lastLineBreak cs (i + 1) srcLine w)"





section \<open>Auxiliary facts\<close>

lemmas write_eval =
  SourceMapWriter_write_def lastLineBreakOf_def CR_def LF_def writeStep_def addMapping_def
  addSource_def originPath_def truthy_def SourceMapWriter_new_def Writer_new_def
  Writer.extend_def SourceMapWriter.fields_def Let_def writeLoop.simps mappingsAt_def
  sourceAt_def mappingsOf_def

lemmas example_defs = freshWriter_def outFile_def fileA_def

lemma addMapping_frame [simp]:
  "content (addMapping text llb f i sl sc w) = content w"
  "indentString (addMapping text llb f i sl sc w) = indentString w"
  "indentChar (addMapping text llb f i sl sc w) = indentChar w"
  "targetFile (addMapping text llb f i sl sc w) = targetFile w"
  "currentLine (addMapping text llb f i sl sc w) = currentLine w"
  "currentColumn (addMapping text llb f i sl sc w) = currentColumn w"
  by (simp_all add: addMapping_def Let_def split: prod.splits option.splits)

lemma CR_neq_LF [simp]: "CR \<noteq> LF" "LF \<noteq> CR"
  by (simp_all add: CR_def LF_def)

lemma writeStep_break:
  assumes "writeStep text llb sf i (w, sl, sc) = (i1, w', sl', sc')"
    and "isBreak (text ! i)"
  shows "i1 = (if crlfAt text i then i + 1 else i)"
    and "content w' = content w @ (if crlfAt text i then [CR, LF] else [text ! i]) @ indentString w"
    and "currentLine w' = currentLine w + 1"
    and "currentColumn w' = int (length (indentString w))"
    and "sl' = sl + 1" and "sc' = 0"
  using assms
  by (auto simp: writeStep_def Let_def isBreak_def crlfAt_def split: prod.splits if_splits option.splits)

lemma writeStep_plain:
  assumes "writeStep text llb sf i (w, sl, sc) = (i1, w', sl', sc')"
    and "\<not> isBreak (text ! i)"
  shows "i1 = i"
    and "content w' = content w @ [text ! i]"
    and "currentLine w' = currentLine w"
    and "currentColumn w' = currentColumn w"
    and "sl' = sl" and "sc' = sc"
  using assms
  by (auto simp: writeStep_def Let_def isBreak_def split: prod.splits if_splits option.splits)

lemma writeStep_frame:
  assumes "writeStep text llb sf i (w, sl, sc) = (i1, w', sl', sc')"
  shows "indentString w' = indentString w" and "indentChar w' = indentChar w"
    and "targetFile w' = targetFile w"
  using assms
  by (auto simp: writeStep_def Let_def split: prod.splits if_splits option.splits)

lemma writeStep_silent:
  assumes "writeStep text llb None i (w, sl, sc) = (i1, w', sl', sc')"
  shows "smBuilder w' = smBuilder w"
  using assms
  by (auto simp: writeStep_def Let_def split: prod.splits if_splits)

declare writeLoop.simps [simp del]

lemma writeLoop_done: "\<not> i < length cs \<Longrightarrow> writeLoop cs llb sf i st = st"
  by (simp add: writeLoop.simps)

lemma writeLoop_step:
  "i < length cs \<Longrightarrow> writeStep cs llb sf i st = (i1, st1) \<Longrightarrow>
   writeLoop cs llb sf i st = writeLoop cs llb sf (i1 + 1) st1"
  by (subst writeLoop.simps) simp

lemma addIndent_Cons:
  "addIndent ind (c # cs) =
     (if c = CR \<and> cs \<noteq> [] \<and> hd cs = LF then CR # LF # ind @ addIndent ind (tl cs)
      else if isBreak c then c # ind @ addIndent ind cs
      else c # addIndent ind cs)"
  by (cases cs) (auto simp: isBreak_def)

lemma countBreaks_Cons:
  "countBreaks (c # cs) =
     (if c = CR \<and> cs \<noteq> [] \<and> hd cs = LF then 1 + countBreaks (tl cs)
      else if isBreak c then 1 + countBreaks cs
      else countBreaks cs)"
  by (cases cs) (auto simp: isBreak_def)

declare addIndent.simps(2) [simp del] countBreaks.simps(2) [simp del]

lemma drop_step:
  assumes "i < length cs"
  shows "drop i cs = cs ! i # drop (Suc i) cs"
    and "crlfAt cs i \<longleftrightarrow> cs ! i = CR \<and> drop (Suc i) cs \<noteq> [] \<and> hd (drop (Suc i) cs) = LF"
    and "tl (drop (Suc i) cs) = drop (Suc (Suc i)) cs"
proof -
  show "drop i cs = cs ! i # drop (Suc i) cs"
    using assms by (simp add: Cons_nth_drop_Suc)
  show "crlfAt cs i \<longleftrightarrow> cs ! i = CR \<and> drop (Suc i) cs \<noteq> [] \<and> hd (drop (Suc i) cs) = LF"
    using assms by (auto simp: crlfAt_def hd_drop_conv_nth simp del: drop_Suc)
  show "tl (drop (Suc i) cs) = drop (Suc (Suc i)) cs"
    by (simp add: drop_Suc tl_drop)
qed

lemma writeLoop_content:
  "content (fst (writeLoop cs llb sf i st)) =
   content (fst st) @ addIndent (indentString (fst st)) (drop i cs)"
proof (induction cs llb sf i st rule: writeLoop.induct)
  case (1 cs llb sf i st)
  show ?case
  proof (cases "i < length cs")
    case False
    then show ?thesis by (simp add: writeLoop_done)
  next
    case True
    obtain w sl sc where st: "st = (w, sl, sc)" by (cases st)
    obtain i1 w' sl' sc' where step: "writeStep cs llb sf i (w, sl, sc) = (i1, w', sl', sc')"
      by (cases "writeStep cs llb sf i (w, sl, sc)")
    have IH: "content (fst (writeLoop cs llb sf (i1 + 1) (w', sl', sc'))) =
              content w' @ addIndent (indentString w') (drop (i1 + 1) cs)"
      using "1.IH" [OF True, of i1 "(w', sl', sc')"] step st by simp
    have loop: "writeLoop cs llb sf i st = writeLoop cs llb sf (i1 + 1) (w', sl', sc')"
      using writeLoop_step [OF True] step st by simp
    note fr = writeStep_frame [OF step]
    show ?thesis
    proof (cases "isBreak (cs ! i)")
      case False
      from writeStep_plain [OF step False] IH loop fr drop_step [OF True] False
      show ?thesis by (auto simp add: st addIndent_Cons isBreak_def)
    next
      case br: True
      note b = writeStep_break [OF step br]
      show ?thesis
      proof (cases "crlfAt cs i")
        case True
        with b IH loop fr drop_step [OF \<open>i < length cs\<close>]
        show ?thesis by (simp add: st addIndent_Cons)
      next
        case False
        with b IH loop fr drop_step [OF \<open>i < length cs\<close>] br
        show ?thesis by (auto simp add: st addIndent_Cons)
      qed
    qed
  qed
qed


lemma writeLoop_rounds:
  assumes stop: "\<And>i st. \<not> i < length cs \<Longrightarrow> P i st st"
    and round: "\<And>i w sl sc i1 w' sl' sc' r. i < length cs \<Longrightarrow>
      writeStep cs llb sf i (w, sl, sc) = (i1, w', sl', sc') \<Longrightarrow>
      P (i1 + 1) (w', sl', sc') r \<Longrightarrow> P i (w, sl, sc) r"
  shows "P i st (writeLoop cs llb sf i st)"
  using assms
proof (induction cs llb sf i st rule: writeLoop.induct)
  case (1 cs llb sf i st)
  show ?case
  proof (cases "i < length cs")
    case False
    then show ?thesis by (simp add: writeLoop_done "1.prems"(1))
  next
    case True
    obtain w sl sc where st: "st = (w, sl, sc)" by (cases st)
    obtain i1 w' sl' sc' where step: "writeStep cs llb sf i (w, sl, sc) = (i1, w', sl', sc')"
      by (cases "writeStep cs llb sf i (w, sl, sc)")
    have "P (i1 + 1) (w', sl', sc') (writeLoop cs llb sf (i1 + 1) (w', sl', sc'))"
      using "1.IH" [OF True, of i1 "(w', sl', sc')"] step st "1.prems" by simp
    then have "P i (w, sl, sc) (writeLoop cs llb sf (i1 + 1) (w', sl', sc'))"
      by (rule "1.prems"(2) [OF True step])
    then show ?thesis
      using writeLoop_step [OF True] step st by simp
  qed
qed

lemma writeLoop_frame:
  "indentString (fst (writeLoop cs llb sf i st)) = indentString (fst st) \<and>
   indentChar (fst (writeLoop cs llb sf i st)) = indentChar (fst st) \<and>
   targetFile (fst (writeLoop cs llb sf i st)) = targetFile (fst st)"
proof (rule writeLoop_rounds [where P = "\<lambda>i st r. indentString (fst r) = indentString (fst st) \<and>
   indentChar (fst r) = indentChar (fst st) \<and> targetFile (fst r) = targetFile (fst st)"])
  fix i w sl sc i1 w' sl' sc' and r :: "SourceMapWriter \<times> int \<times> int"
  assume "writeStep cs llb sf i (w, sl, sc) = (i1, w', sl', sc')"
    and "indentString (fst r) = indentString (fst (w', sl', sc')) \<and>
         indentChar (fst r) = indentChar (fst (w', sl', sc')) \<and>
         targetFile (fst r) = targetFile (fst (w', sl', sc'))"
  then show "indentString (fst r) = indentString (fst (w, sl, sc)) \<and>
         indentChar (fst r) = indentChar (fst (w, sl, sc)) \<and>
         targetFile (fst r) = targetFile (fst (w, sl, sc))"
    using writeStep_frame [of cs llb sf i w sl sc i1 w' sl' sc'] by simp
qed simp

lemma writeLoop_silent:
  "smBuilder (fst (writeLoop cs llb None i st)) = smBuilder (fst st)"
proof (rule writeLoop_rounds [where P = "\<lambda>i st r. smBuilder (fst r) = smBuilder (fst st)"])
  fix i w sl sc i1 w' sl' sc' and r :: "SourceMapWriter \<times> int \<times> int"
  assume "writeStep cs llb None i (w, sl, sc) = (i1, w', sl', sc')"
    and "smBuilder (fst r) = smBuilder (fst (w', sl', sc'))"
  then show "smBuilder (fst r) = smBuilder (fst (w, sl, sc))"
    using writeStep_silent [of cs llb i w sl sc i1 w' sl' sc'] by simp
qed simp

lemma writeLoop_lines:
  "currentLine (fst (writeLoop cs llb sf i st)) = currentLine (fst st) + countBreaks (drop i cs) \<and>
   fst (snd (writeLoop cs llb sf i st)) = fst (snd st) + int (countBreaks (drop i cs))"
proof (rule writeLoop_rounds [where P = "\<lambda>i st r.
    currentLine (fst r) = currentLine (fst st) + countBreaks (drop i cs) \<and>
    fst (snd r) = fst (snd st) + int (countBreaks (drop i cs))"])
  fix i w sl sc i1 w' sl' sc' and r :: "SourceMapWriter \<times> int \<times> int"
  assume less: "i < length cs"
    and step: "writeStep cs llb sf i (w, sl, sc) = (i1, w', sl', sc')"
    and IH: "currentLine (fst r) = currentLine (fst (w', sl', sc')) + countBreaks (drop (i1 + 1) cs) \<and>
             fst (snd r) = fst (snd (w', sl', sc')) + int (countBreaks (drop (i1 + 1) cs))"
  show "currentLine (fst r) = currentLine (fst (w, sl, sc)) + countBreaks (drop i cs) \<and>
        fst (snd r) = fst (snd (w, sl, sc)) + int (countBreaks (drop i cs))"
  proof (cases "isBreak (cs ! i)")
    case False
    from writeStep_plain [OF step False] IH drop_step [OF less] False
    show ?thesis by (auto simp add: countBreaks_Cons isBreak_def)
  next
    case br: True
    note b = writeStep_break [OF step br]
    show ?thesis
    proof (cases "crlfAt cs i")
      case True
      with b IH drop_step [OF less]
      show ?thesis by (simp add: countBreaks_Cons)
    next
      case False
      with b IH drop_step [OF less] br
      show ?thesis by (auto simp add: countBreaks_Cons)
    qed
  qed
qed simp

lemma addIndent_empty_aux: "ind = [] \<Longrightarrow> addIndent ind cs = cs"
  by (induction ind cs rule: addIndent.induct) (auto simp: addIndent.simps(2) split: list.splits)

lemma addIndent_empty: "addIndent [] cs = cs"
  by (simp add: addIndent_empty_aux)

lemma writeLoop_column_aux:
  "(\<forall>c\<in>set (drop i cs). \<not> isBreak c) \<longrightarrow>
   currentColumn (fst (writeLoop cs llb sf i st)) = currentColumn (fst st)"
proof (rule writeLoop_rounds [where P = "\<lambda>i st r. (\<forall>c\<in>set (drop i cs). \<not> isBreak c) \<longrightarrow>
    currentColumn (fst r) = currentColumn (fst st)"])
  fix i w sl sc i1 w' sl' sc' and r :: "SourceMapWriter \<times> int \<times> int"
  assume less: "i < length cs"
    and step: "writeStep cs llb sf i (w, sl, sc) = (i1, w', sl', sc')"
    and IH: "(\<forall>c\<in>set (drop (i1 + 1) cs). \<not> isBreak c) \<longrightarrow> currentColumn (fst r) = currentColumn (fst (w', sl', sc'))"
  show "(\<forall>c\<in>set (drop i cs). \<not> isBreak c) \<longrightarrow> currentColumn (fst r) = currentColumn (fst (w, sl, sc))"
  proof
    assume nb: "\<forall>c\<in>set (drop i cs). \<not> isBreak c"
    then have False: "\<not> isBreak (cs ! i)"
      using drop_step(1) [OF less] by simp
    from writeStep_plain [OF step False] IH drop_step [OF less] nb
    show "currentColumn (fst r) = currentColumn (fst (w, sl, sc))" by simp
  qed
qed simp

lemma writeLoop_column:
  "\<forall>c\<in>set (drop i cs). \<not> isBreak c \<Longrightarrow>
   currentColumn (fst (writeLoop cs llb sf i st)) = currentColumn (fst st)"
  using writeLoop_column_aux by blast

lemma lastLine_snoc: "lastLine (xs @ [c]) = (if isBreak c then [] else lastLine xs @ [c])"
  by (simp add: lastLine_def)

lemma scanLastLineBreak_take:
  "n \<le> length cs \<Longrightarrow>
   scanLastLineBreak cs n =
     (if \<exists>c\<in>set (take n cs). isBreak c
      then int n - 1 - int (length (lastLine (take n cs))) else - 1)"
proof (induction n)
  case 0
  then show ?case by simp
next
  case (Suc n)
  then have tk: "take (Suc n) cs = take n cs @ [cs ! n]"
    by (simp add: take_Suc_conv_app_nth)
  show ?case
  proof (cases "isBreak (cs ! n)")
    case True
    then show ?thesis by (auto simp: tk lastLine_snoc isBreak_def)
  next
    case False
    with Suc show ?thesis by (auto simp: tk lastLine_snoc isBreak_def)
  qed
qed

lemma lastLineBreakOf_eq:
  "lastLineBreakOf cs =
     (if \<exists>c\<in>set cs. isBreak c then int (length cs) - 1 - int (length (lastLine cs)) else - 1)"
  using scanLastLineBreak_take [of "length cs" cs] by (simp add: lastLineBreakOf_def)

lemma length_lastLine_less:
  assumes "\<exists>c\<in>set cs. isBreak c"
  shows "length (lastLine cs) < length cs"
proof -
  let ?t = "takeWhile (\<lambda>c. \<not> isBreak c) (rev cs)"
  have "?t \<noteq> rev cs"
    using assms by (simp add: takeWhile_eq_all_conv)
  moreover have "?t = take (length ?t) (rev cs)"
    by (rule takeWhile_eq_take)
  ultimately have "length ?t \<noteq> length (rev cs)"
    by (metis take_all order_refl)
  moreover have "length ?t \<le> length (rev cs)"
    by (rule length_takeWhile_le)
  ultimately show ?thesis
    by (simp add: lastLine_def)
qed

lemma write_content:
  "content (SourceMapWriter_write w cs sf sl sc) = content w @ addIndent (indentString w) cs"
  by (simp add: SourceMapWriter_write_def Let_def writeLoop_content)

lemma write_currentLine:
  "currentLine (SourceMapWriter_write w cs sf sl sc) = currentLine w + countBreaks cs"
  using writeLoop_lines [of cs "lastLineBreakOf cs" sf 0 "(w, sl, sc)"]
  by (simp add: SourceMapWriter_write_def Let_def)

lemma write_silent:
  "smBuilder (SourceMapWriter_write w cs None sl sc) = smBuilder w"
  by (simp add: SourceMapWriter_write_def Let_def writeLoop_silent)

lemma write_currentColumn:
  "currentColumn (SourceMapWriter_write w cs sf sl sc) =
     (if \<exists>c\<in>set cs. isBreak c
      then int (length (lastLine cs)) + 1 + int (length (indentString w))
      else currentColumn w + int (length cs))"
proof (cases "\<exists>c\<in>set cs. isBreak c")
  case True
  then show ?thesis
    using length_lastLine_less [of cs]
    by (simp add: SourceMapWriter_write_def Let_def lastLineBreakOf_eq writeLoop_frame)
next
  case False
  then have "currentColumn (fst (writeLoop cs (- 1) sf 0 (w, sl, sc))) = currentColumn w"
    using writeLoop_column [of 0 cs "- 1" sf "(w, sl, sc)"] by simp
  with False show ?thesis
    by (simp add: SourceMapWriter_write_def Let_def lastLineBreakOf_eq)
qed


lemma length_copy [simp]: "length (copy source target ts ss se) = length target"
  by (auto simp: copy_def Let_def min_def)

lemma length_allocUnsafe [simp]: "length (allocUnsafe junk n) = n"
  by (simp add: allocUnsafe_def)

lemma copy_from_start:
  "copy source target 0 0 sourceEnd =
     take (min (min sourceEnd (length target)) (length source)) source @
     drop (min (min sourceEnd (length target)) (length source)) target"
  by (simp add: copy_def Let_def)

lemma copy_append:
  "targetStart \<le> length target \<Longrightarrow>
   copy source target targetStart 0 (length source) =
     take targetStart target @ take (length target - targetStart) source @
     drop (targetStart + length source) target"
  by (simp add: copy_def Let_def min_def)

lemma drop_allocUnsafe: "drop k (allocUnsafe junk n) = map junk [k..<n]"
  by (simp add: allocUnsafe_def drop_map)
lemma pushBreaks_Cons:
  "pushBreaks k ind (c # cs) l sl b =
     (if c = CR \<and> cs \<noteq> [] \<and> hd cs = LF
      then pushBreaks k ind (tl cs) (l + 1) (sl + 1) (pushMapping b (l + 1) (originMapping ind k (sl + 1) 0))
      else if isBreak c
      then pushBreaks k ind cs (l + 1) (sl + 1) (pushMapping b (l + 1) (originMapping ind k (sl + 1) 0))
      else pushBreaks k ind cs l sl b)"
  by (cases cs) (auto simp: isBreak_def)

declare pushBreaks.simps(2) [simp del]

lemma indexOf_Some: "indexOf xs x = Some k \<Longrightarrow> k < length xs \<and> xs ! k = x"
  by (induction xs arbitrary: k) (auto split: if_splits)

lemma indexOf_snoc: "indexOf xs x = None \<Longrightarrow> indexOf (xs @ [x]) x = Some (length xs)"
  by (induction xs) (auto split: if_splits)

lemma addSource_known:
  "indexOf (sources b) p = Some k \<Longrightarrow> addSource b p = (k, b)"
  by (simp add: addSource_def)

lemma addSource_index:
  "addSource b p = (k, b1) \<Longrightarrow> indexOf (sources b1) p = Some k \<and> mappings b1 = mappings b"
  by (auto simp: addSource_def indexOf_snoc split: option.splits)

lemma addMapping_leaf:
  assumes "sourceMapBuilder f = None" and "indexOf (sources (smBuilder w)) (originPath f) = Some k"
  shows "smBuilder (addMapping cs llb f i sl sc w) =
         pushMapping (smBuilder w) (currentLine w) (originMapping (currentColumn w) k sl sc)"
  using assms
  by (simp add: addMapping_def Let_def addSource_known pushMapping_def mappingsOf_def originMapping_def)

lemma addMapping_leaf_first:
  assumes "sourceMapBuilder f = None" and "addSource (smBuilder w) (originPath f) = (k, b1)"
  shows "smBuilder (addMapping cs llb f i sl sc w) =
         pushMapping b1 (currentLine w) (originMapping (currentColumn w) k sl sc)"
  using assms addSource_index [OF assms(2)]
  by (simp add: addMapping_def Let_def pushMapping_def mappingsOf_def originMapping_def)

lemma writeStep_builder:
  assumes "writeStep cs llb (Some f) i (w, sl, sc) = (i1, w', sl', sc')"
  shows "smBuilder w' =
     (if isBreak (cs ! i)
      then smBuilder (addMapping cs llb f i1 (sl + 1) 0
             (w\<lparr>currentLine := currentLine w + 1, currentColumn := int (length (indentString w))\<rparr>))
      else if i = 0 then smBuilder (addMapping cs llb f 0 sl sc w)
      else smBuilder w)"
  using assms
  by (auto simp: writeStep_def Let_def isBreak_def addMapping_def split: prod.splits if_splits option.splits)


lemma pushMapping_sources [simp]: "sources (pushMapping b l e) = sources b"
  by (simp add: pushMapping_def)

lemma writeLoop_leaf_aux:
  "0 < i \<and> sourceMapBuilder f = None \<and>
   indexOf (sources (smBuilder (fst st))) (originPath f) = Some k \<longrightarrow>
   smBuilder (fst (writeLoop cs llb (Some f) i st)) =
     pushBreaks k (int (length (indentString (fst st)))) (drop i cs)
       (currentLine (fst st)) (fst (snd st)) (smBuilder (fst st))"
proof (rule writeLoop_rounds [where P = "\<lambda>i st r.
    0 < i \<and> sourceMapBuilder f = None \<and>
    indexOf (sources (smBuilder (fst st))) (originPath f) = Some k \<longrightarrow>
    smBuilder (fst r) =
      pushBreaks k (int (length (indentString (fst st)))) (drop i cs)
        (currentLine (fst st)) (fst (snd st)) (smBuilder (fst st))"])
  fix i w sl sc i1 w' sl' sc' and r :: "SourceMapWriter \<times> int \<times> int"
  assume less: "i < length cs"
    and step: "writeStep cs llb (Some f) i (w, sl, sc) = (i1, w', sl', sc')"
    and IH: "0 < i1 + 1 \<and> sourceMapBuilder f = None \<and>
      indexOf (sources (smBuilder (fst (w', sl', sc')))) (originPath f) = Some k \<longrightarrow>
      smBuilder (fst r) =
        pushBreaks k (int (length (indentString (fst (w', sl', sc'))))) (drop (i1 + 1) cs)
          (currentLine (fst (w', sl', sc'))) (fst (snd (w', sl', sc'))) (smBuilder (fst (w', sl', sc')))"
  show "0 < i \<and> sourceMapBuilder f = None \<and>
      indexOf (sources (smBuilder (fst (w, sl, sc)))) (originPath f) = Some k \<longrightarrow>
      smBuilder (fst r) =
        pushBreaks k (int (length (indentString (fst (w, sl, sc))))) (drop i cs)
          (currentLine (fst (w, sl, sc))) (fst (snd (w, sl, sc))) (smBuilder (fst (w, sl, sc)))"
  proof (intro impI, elim conjE)
    assume pos: "0 < i" and leaf: "sourceMapBuilder f = None"
      and idx: "indexOf (sources (smBuilder (fst (w, sl, sc)))) (originPath f) = Some k"
    note fr = writeStep_frame [OF step]
    note bd = writeStep_builder [OF step]
    show "smBuilder (fst r) =
        pushBreaks k (int (length (indentString (fst (w, sl, sc))))) (drop i cs)
          (currentLine (fst (w, sl, sc))) (fst (snd (w, sl, sc))) (smBuilder (fst (w, sl, sc)))"
    proof (cases "isBreak (cs ! i)")
      case False
      from False bd pos have b': "smBuilder w' = smBuilder w" by simp
      from writeStep_plain [OF step False] IH leaf idx b' fr drop_step [OF less] False
      show ?thesis by (auto simp add: pushBreaks_Cons isBreak_def)
    next
      case br: True
      note b = writeStep_break [OF step br]
      have b': "smBuilder w' = pushMapping (smBuilder w) (currentLine w + 1)
                  (originMapping (int (length (indentString w))) k (sl + 1) 0)"
        using bd br idx addMapping_leaf [OF leaf, of
            "w\<lparr>currentLine := currentLine w + 1, currentColumn := int (length (indentString w))\<rparr>" k]
        by simp
      show ?thesis
      proof (cases "crlfAt cs i")
        case True
        with b IH leaf idx b' fr drop_step [OF less]
        show ?thesis by (simp add: pushBreaks_Cons)
      next
        case False
        with b IH leaf idx b' fr drop_step [OF less] br
        show ?thesis by (auto simp add: pushBreaks_Cons)
      qed
    qed
  qed
qed (simp add: writeLoop_done)

lemma writeLoop_quiet_aux:
  "0 < i \<and> (\<forall>c\<in>set (drop i cs). \<not> isBreak c) \<longrightarrow>
   smBuilder (fst (writeLoop cs llb sf i st)) = smBuilder (fst st)"
proof (rule writeLoop_rounds [where P = "\<lambda>i st r.
    0 < i \<and> (\<forall>c\<in>set (drop i cs). \<not> isBreak c) \<longrightarrow> smBuilder (fst r) = smBuilder (fst st)"])
  fix i w sl sc i1 w' sl' sc' and r :: "SourceMapWriter \<times> int \<times> int"
  assume less: "i < length cs"
    and step: "writeStep cs llb sf i (w, sl, sc) = (i1, w', sl', sc')"
    and IH: "0 < i1 + 1 \<and> (\<forall>c\<in>set (drop (i1 + 1) cs). \<not> isBreak c) \<longrightarrow>
             smBuilder (fst r) = smBuilder (fst (w', sl', sc'))"
  show "0 < i \<and> (\<forall>c\<in>set (drop i cs). \<not> isBreak c) \<longrightarrow>
        smBuilder (fst r) = smBuilder (fst (w, sl, sc))"
  proof (intro impI, elim conjE)
    assume pos: "0 < i" and nb: "\<forall>c\<in>set (drop i cs). \<not> isBreak c"
    then have False: "\<not> isBreak (cs ! i)"
      using drop_step(1) [OF less] by simp
    have "smBuilder w' = smBuilder w"
    proof (cases sf)
      case None
      with step show ?thesis by (simp add: writeStep_silent)
    next
      case (Some f)
      with step writeStep_builder [of cs llb f i w sl sc i1 w' sl' sc'] False pos
      show ?thesis by simp
    qed
    with writeStep_plain [OF step False] IH drop_step [OF less] nb
    show "smBuilder (fst r) = smBuilder (fst (w, sl, sc))" by simp
  qed
qed (simp add: writeLoop_done)


lemma write_builder: 
  "smBuilder (SourceMapWriter_write w cs sf sl sc) =
   smBuilder (fst (writeLoop cs (lastLineBreakOf cs) sf 0 (w, sl, sc)))"
  by (simp add: SourceMapWriter_write_def Let_def)

lemma pushBreaks_none: "\<forall>c\<in>set cs. \<not> isBreak c \<Longrightarrow> pushBreaks k ind cs l sl b = b"
  by (induction cs) (auto simp: pushBreaks_Cons isBreak_def)

lemma countBreaks_zero: "countBreaks cs = 0 \<longleftrightarrow> (\<forall>c\<in>set cs. \<not> isBreak c)"
  by (induction cs) (auto simp: countBreaks_Cons isBreak_def)

lemma write_single_emission:
  assumes ne: "cs \<noteq> []" and nb: "\<forall>c\<in>set cs. \<not> isBreak c"
  shows "smBuilder (SourceMapWriter_write w cs (Some f) sl sc) =
         smBuilder (addMapping cs (- 1) f 0 sl sc w)"
proof -
  have llb: "lastLineBreakOf cs = - 1"
    using nb by (simp add: lastLineBreakOf_eq)
  have less: "0 < length cs" using ne by simp
  obtain i1 w' sl' sc' where step: "writeStep cs (- 1) (Some f) 0 (w, sl, sc) = (i1, w', sl', sc')"
    by (cases "writeStep cs (- 1) (Some f) 0 (w, sl, sc)")
  have plain: "\<not> isBreak (cs ! 0)"
    using nb less by (metis nth_mem)
  have rest: "\<forall>c\<in>set (drop (i1 + 1) cs). \<not> isBreak c"
    using nb by (meson in_set_dropD)
  have "smBuilder (fst (writeLoop cs (- 1) (Some f) 0 (w, sl, sc))) =
        smBuilder (fst (writeLoop cs (- 1) (Some f) (i1 + 1) (w', sl', sc')))"
    using writeLoop_step [OF less step] by simp
  also have "\<dots> = smBuilder w'"
    using writeLoop_quiet_aux [of "i1 + 1" cs "- 1" "Some f" "(w', sl', sc')"] rest by simp
  also have "\<dots> = smBuilder (addMapping cs (- 1) f 0 sl sc w)"
    using writeStep_builder [OF step] plain by simp
  finally show ?thesis
    by (simp add: write_builder llb)
qed

lemma pushBreaks_first:
  assumes "cs \<noteq> []"
  shows "pushBreaks k ind cs l sl b =
     (if isBreak (cs ! 0)
      then pushBreaks k ind (drop (if crlfAt cs 0 then 2 else 1) cs) (l + 1) (sl + 1)
             (pushMapping b (l + 1) (originMapping ind k (sl + 1) 0))
      else pushBreaks k ind (drop 1 cs) l sl b)"
proof (cases cs)
  case Nil
  with assms show ?thesis by simp
next
  case (Cons c rest)
  have "crlfAt (c # rest) 0 \<longleftrightarrow> c = CR \<and> rest \<noteq> [] \<and> hd rest = LF"
    by (cases rest) (auto simp: crlfAt_def)
  moreover have "drop 2 (c # rest) = tl rest"
    by (cases rest) simp_all
  ultimately show ?thesis
    unfolding Cons by (auto simp: pushBreaks_Cons isBreak_def)
qed

lemma write_leaf:
  assumes leaf: "sourceMapBuilder f = None" and ne: "cs \<noteq> []"
    and src: "addSource (smBuilder w) (originPath f) = (k, b1)"
  shows "smBuilder (SourceMapWriter_write w cs (Some f) sl sc) =
     pushBreaks k (int (length (indentString w))) cs (currentLine w) sl
       (if isBreak (hd cs) then b1
        else pushMapping b1 (currentLine w) (originMapping (currentColumn w) k sl sc))"
proof -
  define llb where "llb = lastLineBreakOf cs"
  have less: "0 < length cs" using ne by simp
  obtain i1 w' sl' sc' where step: "writeStep cs llb (Some f) 0 (w, sl, sc) = (i1, w', sl', sc')"
    by (cases "writeStep cs llb (Some f) 0 (w, sl, sc)")
  note fr = writeStep_frame [OF step]
  note bd = writeStep_builder [OF step]
  note ds = drop_step [OF less]
  have hd: "hd cs = cs ! 0"
    using ne by (simp add: hd_conv_nth)
  have cs: "cs = cs ! 0 # drop (Suc 0) cs"
    using ds(1) by simp
  have loop: "smBuilder (fst (writeLoop cs llb (Some f) 0 (w, sl, sc))) =
        smBuilder (fst (writeLoop cs llb (Some f) (i1 + 1) (w', sl', sc')))"
    using writeLoop_step [OF less step] by simp
  have idx: "indexOf (sources b1) (originPath f) = Some k"
    using addSource_index [OF src] by simp
  show ?thesis
  proof (cases "isBreak (cs ! 0)")
    case False
    have b': "smBuilder w' = pushMapping b1 (currentLine w) (originMapping (currentColumn w) k sl sc)"
      using bd False addMapping_leaf_first [OF leaf src] by simp
    have "smBuilder (fst (writeLoop cs llb (Some f) (i1 + 1) (w', sl', sc'))) =
          pushBreaks k (int (length (indentString w'))) (drop (i1 + 1) cs) (currentLine w') sl'
            (smBuilder w')"
      using writeLoop_leaf_aux [of "i1 + 1" f "(w', sl', sc')" k cs llb] leaf idx b' by simp
    with writeStep_plain [OF step False] fr b' False loop hd
    have "smBuilder (fst (writeLoop cs llb (Some f) 0 (w, sl, sc))) =
          pushBreaks k (int (length (indentString w))) (drop (Suc 0) cs) (currentLine w) sl
            (pushMapping b1 (currentLine w) (originMapping (currentColumn w) k sl sc))"
      by simp
    moreover have "pushBreaks k (int (length (indentString w))) cs (currentLine w) sl
            (pushMapping b1 (currentLine w) (originMapping (currentColumn w) k sl sc)) =
          pushBreaks k (int (length (indentString w))) (drop (Suc 0) cs) (currentLine w) sl
            (pushMapping b1 (currentLine w) (originMapping (currentColumn w) k sl sc))"
      using False by (simp add: pushBreaks_first [OF ne])
    ultimately show ?thesis
      using False hd by (simp add: write_builder llb_def)
  next
    case br: True
    note b = writeStep_break [OF step br]
    have b': "smBuilder w' = pushMapping b1 (currentLine w + 1)
                (originMapping (int (length (indentString w))) k (sl + 1) 0)"
      using bd br addMapping_leaf_first [OF leaf, of
          "w\<lparr>currentLine := currentLine w + 1, currentColumn := int (length (indentString w))\<rparr>" k b1]
        src by simp
    have "smBuilder (fst (writeLoop cs llb (Some f) (i1 + 1) (w', sl', sc'))) =
          pushBreaks k (int (length (indentString w'))) (drop (i1 + 1) cs) (currentLine w') sl'
            (smBuilder w')"
      using writeLoop_leaf_aux [of "i1 + 1" f "(w', sl', sc')" k cs llb] leaf idx b' by simp
    with b fr b' loop
    have eq: "smBuilder (fst (writeLoop cs llb (Some f) 0 (w, sl, sc))) =
          pushBreaks k (int (length (indentString w))) (drop (i1 + 1) cs) (currentLine w + 1) (sl + 1)
            (pushMapping b1 (currentLine w + 1)
               (originMapping (int (length (indentString w))) k (sl + 1) 0))"
      by simp
    have "pushBreaks k (int (length (indentString w))) cs (currentLine w) sl b1 =
          pushBreaks k (int (length (indentString w))) (drop (i1 + 1) cs) (currentLine w + 1) (sl + 1)
            (pushMapping b1 (currentLine w + 1)
               (originMapping (int (length (indentString w))) k (sl + 1) 0))"
      using br b(1) by (simp add: pushBreaks_first [OF ne] numeral_2_eq_2)
    with eq show ?thesis
      using br hd by (simp add: write_builder llb_def)
  qed
qed

lemma originEntry_mono:
  "originEntry f b e \<Longrightarrow> sources b' = sources b @ ext \<Longrightarrow> originEntry f b' e"
  by (auto simp: originEntry_def nth_append)

lemma copiedEntry_mono:
  "copiedEntry sm b e \<Longrightarrow> sources b' = sources b @ ext \<Longrightarrow> copiedEntry sm b' e"
  unfolding copiedEntry_def repointed_def by (auto simp: nth_append) 



lemma addSource_grows:
  assumes "addSource b p = (k, b1)"
  shows "\<exists>ext. sources b1 = sources b @ ext" and "k < length (sources b1)" and "sources b1 ! k = p"
    and "mappings b1 = mappings b"
  using assms indexOf_Some [of "sources b" p]
  by (auto simp: addSource_def split: option.splits)

lemma copyMappings_skip:
  assumes "i = 0 \<and> column m < sc"
  shows "copyMappings srcs i llb len sc cc (m # ms) (b, line) =
         copyMappings srcs i llb len sc cc ms (b, line)"
  using assms by simp

lemma copyMappings_stop:
  assumes "\<not> (i = 0 \<and> column m < sc)"
    and "int i = llb \<and> column m \<ge> int len + (if i = 0 then sc else - llb)"
  shows "copyMappings srcs i llb len sc cc (m # ms) (b, line) = (b, line)"
  using assms by (cases "i = 0") simp_all

lemma copyMappings_push:
  assumes "\<not> (i = 0 \<and> column m < sc)"
    and "\<not> (int i = llb \<and> column m \<ge> int len + (if i = 0 then sc else - llb))"
    and "addSource b (sourceAt srcs (sourceIndex m)) = (k, b1)"
  shows "copyMappings srcs i llb len sc cc (m # ms) (b, line) =
         copyMappings srcs i llb len sc cc ms
           (b1, (if line \<noteq> [] \<and> column (last line) = column m - sc + cc
                 then butlast line else line) @
                [\<lparr>column = column m - sc + cc, sourceIndex = k, sourceLine = sourceLine m,
                  sourceColumn = sourceColumn m, nameIndex = nameIndex m\<rparr>])"
  using assms by (cases "i = 0"; cases "int i = llb"; simp add: Let_def)

lemma copyMappings_entries:
  assumes "set ms \<subseteq> set (mappingsAt sm l)"
    and "\<forall>e\<in>set line. G e \<or> originEntry f b e \<or> copiedEntry sm b e"
    and "copyMappings (sources sm) i llb len sc cc ms (b, line) = (b', line')"
  shows "(\<exists>ext. sources b' = sources b @ ext) \<and> mappings b' = mappings b \<and>
         (\<forall>e\<in>set line'. G e \<or> originEntry f b' e \<or> copiedEntry sm b' e)"
  using assms
proof (induction ms arbitrary: b line)
  case Nil
  then show ?case by simp
next
  case (Cons m ms)
  show ?case
  proof (cases "i = 0 \<and> column m < sc")
    case True
    from Cons.prems(3) have "copyMappings (sources sm) i llb len sc cc ms (b, line) = (b', line')"
      by (simp only: copyMappings_skip [OF True])
    with Cons.IH [of line b] Cons.prems show ?thesis by simp
  next
    case skip: False
    show ?thesis
    proof (cases "int i = llb \<and> column m \<ge> int len + (if i = 0 then sc else - llb)")
      case True
      from Cons.prems(3) have "(b, line) = (b', line')"
        by (simp only: copyMappings_stop [OF skip True])
      with Cons.prems(2) show ?thesis by auto
    next
      case False
      define newColumn where "newColumn = column m - sc + cc"
      define line1 where "line1 = (if line \<noteq> [] \<and> column (last line) = newColumn then butlast line else line)"
      obtain k b1 where src: "addSource b (sourceAt (sources sm) (sourceIndex m)) = (k, b1)"
        by (cases "addSource b (sourceAt (sources sm) (sourceIndex m))")
      define e1 where "e1 = \<lparr>column = newColumn, sourceIndex = k, sourceLine = sourceLine m,
        sourceColumn = sourceColumn m, nameIndex = nameIndex m\<rparr>"
      from addSource_grows [OF src] obtain ext where
        ext: "sources b1 = sources b @ ext" and k: "k < length (sources b1)"
        "sources b1 ! k = sourceAt (sources sm) (sourceIndex m)" and mp: "mappings b1 = mappings b"
        by blast
      have rec: "copyMappings (sources sm) i llb len sc cc ms (b1, line1 @ [e1]) = (b', line')"
        using Cons.prems(3)
        by (simp only: copyMappings_push [OF skip False src] newColumn_def line1_def e1_def)
      have "m \<in> set (mappingsAt sm l)"
        using Cons.prems(1) by simp
      then have new: "copiedEntry sm b1 e1"
        using k unfolding copiedEntry_def repointed_def e1_def by auto
      have sub: "set line1 \<subseteq> set line"
        by (auto simp: line1_def dest: in_set_butlastD)
      have old: "\<forall>e\<in>set (line1 @ [e1]). G e \<or> originEntry f b1 e \<or> copiedEntry sm b1 e"
        using Cons.prems(2) sub new originEntry_mono [OF _ ext] copiedEntry_mono [OF _ ext]
        by auto
      have "set ms \<subseteq> set (mappingsAt sm l)"
        using Cons.prems(1) by simp
      from Cons.IH [OF this old rec] ext mp show ?thesis
        by auto
    qed
  qed
qed


lemma mappingsOf_update:
  "mappingsOf (b\<lparr>mappings := (mappings b)(l \<mapsto> line)\<rparr>) l' =
     (if l' = l then line else mappingsOf b l')"
  by (simp add: mappingsOf_def)

lemma addMapping_unfold:
  assumes "sourceMapBuilder f = Some sm"
    and "addSource (smBuilder w) (originPath f) = (k, b1)"
    and "copyMappings (sources sm) i llb (length cs) sc (currentColumn w) (mappingsAt sm sl)
           (b1, mappingsOf (smBuilder w) (currentLine w) @ [originMapping (currentColumn w) k sl sc]) =
         (b2, line2)"
  shows "smBuilder (addMapping cs llb f i sl sc w) =
         b2\<lparr>mappings := (mappings b2)(currentLine w \<mapsto> line2)\<rparr>"
  using assms by (simp add: addMapping_def Let_def mappingsOf_def originMapping_def)








lemma write_overflow:
  assumes cap: "1 \<le> capacity s" and len: "bufLength s \<le> capacity s"
    and big: "2 * capacity s - 1 < bufLength s + length chunk"
  shows "\<exists>s'. BufferStream_write junk s chunk = Inr s' \<and>
     bufLength s' = bufLength s + length chunk \<and>
     capacity s' = 2 * capacity s - 1 \<and>
     toBuffer junk s' 0 (bufLength s') =
       Inr (take (bufLength s) (buffer s) @ take (2 * capacity s - 1 - bufLength s) chunk @
            map junk [2 * capacity s - 1 ..< bufLength s + length chunk])"
proof -
  define c where "c = capacity s"
  define l where "l = bufLength s"
  define b1 where "b1 = copy (buffer s) (allocUnsafe junk (2 * c - 1)) 0 0 l"
  define b2 where "b2 = copy chunk b1 l 0 (length chunk)"
  have c: "length (buffer s) = c" "1 \<le> c" "l \<le> c" "2 * c - 1 < l + length chunk"
    using assms by (simp_all add: c_def l_def capacity_def)
  have min1: "min (int l + int (length chunk)) (int c * 2 - 1) = int (2 * c - 1)"
    using c by linarith
  have natc: "nat (int c * 2 - 1) = 2 * c - 1"
    using c by linarith
  have ens: "ensureCapacity junk s (int (bufLength s + length chunk)) = Inr (s\<lparr>buffer := b1\<rparr>)"
    using c min1 natc by (simp add: ensureCapacity_def capacity_def Let_def b1_def flip: l_def)
  have le: "l \<le> 2 * c - 1"
    using c by linarith
  have b1: "b1 = take l (buffer s) @ map junk [l..<2 * c - 1]"
    using c le by (simp add: b1_def copy_from_start drop_allocUnsafe min_def)
  have lb1: "length b1 = 2 * c - 1"
    by (simp add: b1_def)
  have "l \<le> length b1"
    using c lb1 by linarith
  then have "b2 = take l b1 @ take (length b1 - l) chunk @ drop (l + length chunk) b1"
    unfolding b2_def by (rule copy_append)
  moreover have "take l b1 = take l (buffer s)"
    using c by (simp add: b1)
  moreover have "drop (l + length chunk) b1 = []"
    using c lb1 by simp
  ultimately have b2: "b2 = take l (buffer s) @ take (2 * c - 1 - l) chunk"
    by (simp add: lb1)
  have lb2: "length b2 = 2 * c - 1"
    by (simp add: b2_def lb1)
  have wr: "BufferStream_write junk s chunk = Inr \<lparr>buffer = b2, bufLength = l + length chunk\<rparr>"
    using ens by (simp add: BufferStream_write_def b2_def l_def)
  have "copy b2 (allocUnsafe junk (l + length chunk)) 0 0 (l + length chunk) =
        b2 @ map junk [2 * c - 1..<l + length chunk]"
    using c lb2 by (simp add: copy_from_start drop_allocUnsafe min_def)
  then have tb: "toBuffer junk \<lparr>buffer = b2, bufLength = l + length chunk\<rparr> 0 (l + length chunk) =
        Inr (b2 @ map junk [2 * c - 1..<l + length chunk])"
    by (simp add: toBuffer_def)
  have cap': "capacity \<lparr>buffer = b2, bufLength = l + length chunk\<rparr> = 2 * c - 1"
    using lb2 by (simp add: capacity_def)
  show ?thesis
    unfolding c_def [symmetric] l_def [symmetric]
    using wr tb cap' by (simp add: b2)
qed

lemma write_within:
  assumes cap: "1 \<le> capacity s" and len: "bufLength s \<le> capacity s"
    and fits: "bufLength s + length chunk \<le> 2 * capacity s - 1"
  shows "\<exists>s'. BufferStream_write junk s chunk = Inr s' \<and>
     bufLength s' = bufLength s + length chunk \<and>
     bufLength s' \<le> capacity s' \<and>
     toBuffer junk s' 0 (bufLength s') = Inr (take (bufLength s) (buffer s) @ chunk)"
proof -
  define c where "c = capacity s"
  define l where "l = bufLength s"
  define n where "n = length chunk"
  have c: "length (buffer s) = c" "1 \<le> c" "l \<le> c" "l + n \<le> 2 * c - 1"
    using assms by (simp_all add: c_def l_def n_def capacity_def)
  obtain b1 where ens: "ensureCapacity junk s (int (bufLength s + length chunk)) = Inr (s\<lparr>buffer := b1\<rparr>)"
    and lb1: "l + n \<le> length b1" and pre: "take l b1 = take l (buffer s)"
  proof (cases "l + n < c")
    case True
    then have "ensureCapacity junk s (int (bufLength s + length chunk)) = Inr (s\<lparr>buffer := buffer s\<rparr>)"
      using c by (simp add: ensureCapacity_def capacity_def flip: l_def n_def)
    with True c show ?thesis by (intro that [of "buffer s"]) simp_all
  next
    case False
    define b1 where "b1 = copy (buffer s) (allocUnsafe junk (l + n)) 0 0 l"
    have min1: "min (int l + int n) (int c * 2 - 1) = int (l + n)"
      using c by linarith
    have "ensureCapacity junk s (int (bufLength s + length chunk)) = Inr (s\<lparr>buffer := b1\<rparr>)"
      using c False min1
      by (simp add: ensureCapacity_def capacity_def Let_def b1_def nat_int_add flip: l_def n_def)
    moreover have "l + n \<le> length b1"
      by (simp add: b1_def)
    moreover have "take l b1 = take l (buffer s)"
      using c by (simp add: b1_def copy_from_start min_def)
    ultimately show ?thesis by (rule that)
  qed
  define b2 where "b2 = copy chunk b1 l 0 (length chunk)"
  have "l \<le> length b1" using lb1 by simp
  then have "b2 = take l b1 @ take (length b1 - l) chunk @ drop (l + length chunk) b1"
    unfolding b2_def by (rule copy_append)
  moreover have "take (length b1 - l) chunk = chunk"
    using lb1 by (simp add: n_def)
  ultimately have b2: "b2 = take l (buffer s) @ chunk @ drop (l + n) b1"
    by (simp add: pre n_def)
  have lb2: "length b2 = length b1"
    by (simp add: b2_def)
  have tk: "take (l + n) b2 = take l (buffer s) @ chunk"
    using c by (simp add: b2 n_def)
  have wr: "BufferStream_write junk s chunk = Inr \<lparr>buffer = b2, bufLength = l + n\<rparr>"
    using ens by (simp add: BufferStream_write_def b2_def l_def n_def)
  have "copy b2 (allocUnsafe junk (l + n)) 0 0 (l + n) = take (l + n) b2"
    using lb1 lb2 by (simp add: copy_from_start min_def)
  then have tb: "toBuffer junk \<lparr>buffer = b2, bufLength = l + n\<rparr> 0 (l + n) =
        Inr (take l (buffer s) @ chunk)"
    by (simp add: toBuffer_def tk)
  have cap': "l + n \<le> capacity \<lparr>buffer = b2, bufLength = l + n\<rparr>"
    using lb1 lb2 by (simp add: capacity_def)
  show ?thesis
    unfolding l_def [symmetric] n_def [symmetric]
    using wr tb cap' by simp
qed

lemma emitAfterBreaks_Cons:
  "emitAfterBreaks f whole llb (c # cs) i sl w =
     (if c = CR \<and> cs \<noteq> [] \<and> hd cs = LF
      then emitAfterBreaks f whole llb (tl cs) (i + 2) (sl + 1)
             (addMapping whole llb f (i + 1) (sl + 1) 0 (nextLine w))
      else if isBreak c
      then emitAfterBreaks f whole llb cs (i + 1) (sl + 1)
             (addMapping whole llb f i (sl + 1) 0 (nextLine w))
      else emitAfterBreaks f whole llb cs (i + 1) sl w)"
  by (cases cs) (auto simp: isBreak_def)

declare emitAfterBreaks.simps(2) [simp del]

lemma addMapping_builder_cong:
  "smBuilder w1 = smBuilder w2 \<Longrightarrow> currentLine w1 = currentLine w2 \<Longrightarrow>
   currentColumn w1 = currentColumn w2 \<Longrightarrow>
   smBuilder (addMapping cs llb f i sl sc w1) = smBuilder (addMapping cs llb f i sl sc w2)"
  by (simp add: addMapping_def Let_def split: prod.splits option.splits)

lemma nextLine_simps [simp]:
  "smBuilder (nextLine w) = smBuilder w"
  "currentLine (nextLine w) = currentLine w + 1"
  "currentColumn (nextLine w) = int (length (indentString w))"
  "indentString (nextLine w) = indentString w"
  by (simp_all add: nextLine_def)

lemma emitAfterBreaks_cong:
  "smBuilder w1 = smBuilder w2 \<Longrightarrow> currentLine w1 = currentLine w2 \<Longrightarrow>
   indentString w1 = indentString w2 \<Longrightarrow>
   smBuilder (emitAfterBreaks f whole llb cs i sl w1) =
   smBuilder (emitAfterBreaks f whole llb cs i sl w2)"
proof (induction f whole llb cs i sl w1 arbitrary: w2 rule: emitAfterBreaks.induct)
  case (1 f whole llb i sl w)
  then show ?case by simp
next
  case (2 f whole llb c cs i sl w)
  have am: "smBuilder (addMapping whole llb f j (sl + 1) 0 (nextLine w)) =
            smBuilder (addMapping whole llb f j (sl + 1) 0 (nextLine w2))" for j
    using "2.prems" by (intro addMapping_builder_cong) simp_all
  show ?case
  proof (cases "c = CR")
    case True
    show ?thesis
    proof (cases cs)
      case Nil
      with True am show ?thesis by (simp add: emitAfterBreaks.simps(2))
    next
      case (Cons d ds)
      show ?thesis
      proof (cases "d = LF")
        case dl: True
        from "2.IH"(1) [OF True Cons dl, of "addMapping whole llb f (i + 1) (sl + 1) 0 (nextLine w2)"]
          am "2.prems" True Cons dl
        show ?thesis by (simp add: emitAfterBreaks.simps(2))
      next
        case dl: False
        from "2.IH"(2) [OF True Cons dl, of "addMapping whole llb f i (sl + 1) 0 (nextLine w2)"]
          am "2.prems" True Cons dl
        show ?thesis by (simp add: emitAfterBreaks.simps(2))
      qed
    qed
  next
    case False
    show ?thesis
    proof (cases "c = LF")
      case True
      from "2.IH"(3) [OF False True, of "addMapping whole llb f i (sl + 1) 0 (nextLine w2)"]
        am "2.prems" False True
      show ?thesis by (simp add: emitAfterBreaks.simps(2))
    next
      case lf: False
      from "2.IH"(4) [OF False lf, of w2] "2.prems" False lf
      show ?thesis by (simp add: emitAfterBreaks.simps(2))
    qed
  qed
qed


lemma emitAfterBreaks_round:
  assumes "i < length cs"
  shows "emitAfterBreaks f whole llb (drop i cs) i sl w =
     (if isBreak (cs ! i)
      then emitAfterBreaks f whole llb (drop ((if crlfAt cs i then i + 1 else i) + 1) cs)
             ((if crlfAt cs i then i + 1 else i) + 1) (sl + 1)
             (addMapping whole llb f (if crlfAt cs i then i + 1 else i) (sl + 1) 0 (nextLine w))
      else emitAfterBreaks f whole llb (drop (i + 1) cs) (i + 1) sl w)"
proof -
  note ds = drop_step [OF assms]
  show ?thesis
  proof (cases "crlfAt cs i")
    case True
    then have "isBreak (cs ! i)" by (simp add: crlfAt_def isBreak_def)
    with True ds show ?thesis
      by (simp add: emitAfterBreaks_Cons numeral_2_eq_2)
  next
    case False
    with ds show ?thesis
      by (auto simp add: emitAfterBreaks_Cons)
  qed
qed

lemma writeLoop_emissions_aux:
  "0 < i \<longrightarrow>
   smBuilder (fst (writeLoop cs llb (Some f) i st)) =
   smBuilder (emitAfterBreaks f cs llb (drop i cs) i (fst (snd st)) (fst st))"
proof (rule writeLoop_rounds [where P = "\<lambda>i st r. 0 < i \<longrightarrow>
    smBuilder (fst r) = smBuilder (emitAfterBreaks f cs llb (drop i cs) i (fst (snd st)) (fst st))"])
  fix i w sl sc i1 w' sl' sc' and r :: "SourceMapWriter \<times> int \<times> int"
  assume less: "i < length cs"
    and step: "writeStep cs llb (Some f) i (w, sl, sc) = (i1, w', sl', sc')"
    and IH: "0 < i1 + 1 \<longrightarrow> smBuilder (fst r) =
      smBuilder (emitAfterBreaks f cs llb (drop (i1 + 1) cs) (i1 + 1) (fst (snd (w', sl', sc')))
        (fst (w', sl', sc')))"
  show "0 < i \<longrightarrow> smBuilder (fst r) =
      smBuilder (emitAfterBreaks f cs llb (drop i cs) i (fst (snd (w, sl, sc))) (fst (w, sl, sc)))"
  proof
    assume pos: "0 < i"
    note fr = writeStep_frame [OF step]
    note bd = writeStep_builder [OF step]
    from IH have r: "smBuilder (fst r) =
        smBuilder (emitAfterBreaks f cs llb (drop (i1 + 1) cs) (i1 + 1) sl' w')"
      by simp
    show "smBuilder (fst r) =
      smBuilder (emitAfterBreaks f cs llb (drop i cs) i (fst (snd (w, sl, sc))) (fst (w, sl, sc)))"
    proof (cases "isBreak (cs ! i)")
      case False
      note p = writeStep_plain [OF step False]
      have "smBuilder (emitAfterBreaks f cs llb (drop (i + 1) cs) (i + 1) sl w') =
            smBuilder (emitAfterBreaks f cs llb (drop (i + 1) cs) (i + 1) sl w)"
        using bd False pos p fr by (intro emitAfterBreaks_cong) simp_all
      with r p False show ?thesis
        by (simp add: emitAfterBreaks_round [OF less])
    next
      case br: True
      note b = writeStep_break [OF step br]
      have "smBuilder (emitAfterBreaks f cs llb (drop (i1 + 1) cs) (i1 + 1) (sl + 1) w') =
            smBuilder (emitAfterBreaks f cs llb (drop (i1 + 1) cs) (i1 + 1) (sl + 1)
              (addMapping cs llb f i1 (sl + 1) 0 (nextLine w)))"
        using bd br b fr by (intro emitAfterBreaks_cong) (simp_all add: nextLine_def)
      with r b br show ?thesis
        by (simp add: emitAfterBreaks_round [OF less])
    qed
  qed
qed (simp add: writeLoop_done)

lemma write_emissions:
  assumes ne: "cs \<noteq> []"
  shows "smBuilder (SourceMapWriter_write w cs (Some f) sl sc) =
     smBuilder (emitAfterBreaks f cs (lastLineBreakOf cs) cs 0 sl
       (if isBreak (hd cs) then w else addMapping cs (lastLineBreakOf cs) f 0 sl sc w))"
proof -
  define llb where "llb = lastLineBreakOf cs"
  have less: "0 < length cs" using ne by simp
  obtain i1 w' sl' sc' where step: "writeStep cs llb (Some f) 0 (w, sl, sc) = (i1, w', sl', sc')"
    by (cases "writeStep cs llb (Some f) 0 (w, sl, sc)")
  note fr = writeStep_frame [OF step]
  note bd = writeStep_builder [OF step]
  have hd: "hd cs = cs ! 0"
    using ne by (simp add: hd_conv_nth)
  have "smBuilder (fst (writeLoop cs llb (Some f) 0 (w, sl, sc))) =
        smBuilder (fst (writeLoop cs llb (Some f) (i1 + 1) (w', sl', sc')))"
    using writeLoop_step [OF less step] by simp
  also have "\<dots> = smBuilder (emitAfterBreaks f cs llb (drop (i1 + 1) cs) (i1 + 1) sl' w')"
    using writeLoop_emissions_aux [of "i1 + 1" cs llb f "(w', sl', sc')"] by simp
  finally have loop: "smBuilder (fst (writeLoop cs llb (Some f) 0 (w, sl, sc))) =
        smBuilder (emitAfterBreaks f cs llb (drop (i1 + 1) cs) (i1 + 1) sl' w')" .
  show ?thesis
  proof (cases "isBreak (cs ! 0)")
    case False
    note p = writeStep_plain [OF step False]
    have "smBuilder (emitAfterBreaks f cs llb (drop (0 + 1) cs) (0 + 1) sl w') =
          smBuilder (emitAfterBreaks f cs llb (drop (0 + 1) cs) (0 + 1) sl
            (addMapping cs llb f 0 sl sc w))"
      using bd False p fr by (intro emitAfterBreaks_cong) simp_all
    with loop p False hd show ?thesis
      using emitAfterBreaks_round [OF less, of f cs llb sl "addMapping cs llb f 0 sl sc w"]
      by (simp add: write_builder llb_def)
  next
    case br: True
    note b = writeStep_break [OF step br]
    have "smBuilder (emitAfterBreaks f cs llb (drop (i1 + 1) cs) (i1 + 1) (sl + 1) w') =
          smBuilder (emitAfterBreaks f cs llb (drop (i1 + 1) cs) (i1 + 1) (sl + 1)
            (addMapping cs llb f i1 (sl + 1) 0 (nextLine w)))"
      using bd br b fr by (intro emitAfterBreaks_cong) (simp_all add: nextLine_def)
    with loop b br hd show ?thesis
      using emitAfterBreaks_round [OF less, of f cs llb sl w]
      by (simp add: write_builder llb_def)
  qed
qed











lemma addMapping_other_lines:
  "l \<noteq> currentLine w \<Longrightarrow>
   mappingsOf (smBuilder (addMapping cs llb f i sl sc w)) l = mappingsOf (smBuilder w) l"
proof -
  assume l: "l \<noteq> currentLine w"
  obtain k b1 where src: "addSource (smBuilder w) (originPath f) = (k, b1)"
    by (cases "addSource (smBuilder w) (originPath f)")
  note a = addSource_grows [OF src]
  show ?thesis
  proof (cases "sourceMapBuilder f")
    case None
    with src a(4) l show ?thesis
      by (simp add: addMapping_def Let_def mappingsOf_def)
  next
    case (Some sm)
    obtain b2 line2 where cp:
      "copyMappings (sources sm) i llb (length cs) sc (currentColumn w) (mappingsAt sm sl)
         (b1, mappingsOf (smBuilder w) (currentLine w) @ [originMapping (currentColumn w) k sl sc]) =
       (b2, line2)"
      by (cases "copyMappings (sources sm) i llb (length cs) sc (currentColumn w) (mappingsAt sm sl)
         (b1, mappingsOf (smBuilder w) (currentLine w) @ [originMapping (currentColumn w) k sl sc])")
    have "\<forall>e\<in>set (mappingsOf (smBuilder w) (currentLine w) @ [originMapping (currentColumn w) k sl sc]).
            True \<or> originEntry f b1 e \<or> copiedEntry sm b1 e"
      by simp
    from copyMappings_entries [OF subset_refl this cp] have "mappings b2 = mappings b1"
      by blast
    with a(4) l show ?thesis
      unfolding addMapping_unfold [OF Some src cp]
      by (simp add: mappingsOf_def)
  qed
qed


lemma copyMappings_appends:
  assumes "rest \<noteq> []"
  shows "\<exists>rest'. rest' \<noteq> [] \<and>
           snd (copyMappings srcs i llb len sc cc ms (b, old @ rest)) = old @ rest'"
  using assms
proof (induction ms arbitrary: b rest)
  case Nil
  then show ?case by simp
next
  case (Cons m ms)
  show ?case
  proof (cases "i = 0 \<and> column m < sc")
    case True
    from Cons.IH [OF Cons.prems, of b] show ?thesis
      by (simp only: copyMappings_skip [OF True])
  next
    case skip: False
    show ?thesis
    proof (cases "int i = llb \<and> column m \<ge> int len + (if i = 0 then sc else - llb)")
      case True
      with Cons.prems show ?thesis
        by (simp only: copyMappings_stop [OF skip True]) simp
    next
      case False
      obtain k b1 where src: "addSource b (sourceAt srcs (sourceIndex m)) = (k, b1)"
        by (cases "addSource b (sourceAt srcs (sourceIndex m))")
      let ?e = "\<lparr>column = column m - sc + cc, sourceIndex = k, sourceLine = sourceLine m,
                  sourceColumn = sourceColumn m, nameIndex = nameIndex m\<rparr>"
      have "\<exists>rest1. rest1 \<noteq> [] \<and>
              (if old @ rest \<noteq> [] \<and> column (last (old @ rest)) = column m - sc + cc
               then butlast (old @ rest) else old @ rest) @ [?e] = old @ rest1"
        using Cons.prems by (simp add: butlast_append)
      then obtain rest1 where r1: "rest1 \<noteq> []"
        "(if old @ rest \<noteq> [] \<and> column (last (old @ rest)) = column m - sc + cc
               then butlast (old @ rest) else old @ rest) @ [?e] = old @ rest1"
        by blast
      from Cons.IH [OF r1(1), of b1] show ?thesis
        by (simp only: copyMappings_push [OF skip False src] r1(2))
    qed
  qed
qed

lemma addMapping_appends:
  "\<exists>new. new \<noteq> [] \<and>
     mappingsOf (smBuilder (addMapping cs llb f i sl sc w)) (currentLine w) =
     mappingsOf (smBuilder w) (currentLine w) @ new"
proof -
  obtain k b1 where src: "addSource (smBuilder w) (originPath f) = (k, b1)"
    by (cases "addSource (smBuilder w) (originPath f)")
  let ?e0 = "originMapping (currentColumn w) k sl sc"
  show ?thesis
  proof (cases "sourceMapBuilder f")
    case None
    with src show ?thesis
      by (simp add: addMapping_def Let_def mappingsOf_def)
  next
    case (Some sm)
    obtain b2 line2 where cp:
      "copyMappings (sources sm) i llb (length cs) sc (currentColumn w) (mappingsAt sm sl)
         (b1, mappingsOf (smBuilder w) (currentLine w) @ [?e0]) = (b2, line2)"
      by (cases "copyMappings (sources sm) i llb (length cs) sc (currentColumn w) (mappingsAt sm sl)
         (b1, mappingsOf (smBuilder w) (currentLine w) @ [?e0])")
    from copyMappings_appends [of "[?e0]" "sources sm" i llb "length cs" sc "currentColumn w"
        "mappingsAt sm sl" b1 "mappingsOf (smBuilder w) (currentLine w)"] cp
    obtain new where "new \<noteq> []" "line2 = mappingsOf (smBuilder w) (currentLine w) @ new"
      by auto
    then show ?thesis
      unfolding addMapping_unfold [OF Some src cp] by (simp add: mappingsOf_update)
  qed
qed





section \<open>Writing nothing\<close>

text \<open>
  C10.  Writing the empty string changes nothing, in the plain writer and in the writer
  with source maps: the content, the line, the column and the mapping table (indeed the
  whole writer) are as before, also when a source file, a source line and a source
  column are given.
\<close>

theorem write_empty_noop:
  "SourceMapWriter_write w [] sourceFile srcLine srcColumn = w \<and> Writer_write w [] = w"
  by (simp add: SourceMapWriter_write_def Writer_write_def lastLineBreakOf_def writeLoop.simps)


section \<open>Line breaks\<close>

text \<open>
  C4, as the code has it.  A line break of the text is written to the content as it
  stands (a carriage return and a line feed as these two characters, a lone carriage
  return as a carriage return, a lone line feed as a line feed), followed by the indent
  string; without an indent the content grows by exactly the text.  Each break, the pair
  of carriage return and line feed too, advances the current line by one.
\<close>

theorem write_keeps_line_breaks:
  "content (SourceMapWriter_write w cs sourceFile srcLine srcColumn) =
     content w @ addIndent (indentString w) cs \<and>
   content (SourceMapWriter_write (w\<lparr>indentString := []\<rparr>) cs sourceFile srcLine srcColumn) =
     content w @ cs \<and>
   currentLine (SourceMapWriter_write w cs sourceFile srcLine srcColumn) =
     currentLine w + countBreaks cs"
  by (simp add: write_content write_currentLine addIndent_empty)

text \<open>
  The claim C4 as it is stated fails: a carriage return and a line feed are not written
  as a single line feed.
\<close>

theorem crlf_not_normalized:
  "content (SourceMapWriter_write freshWriter [CHR ''a'', CR, LF, CHR ''b''] None 0 0) =
     [CHR ''a'', CR, LF, CHR ''b''] \<and>
   content (SourceMapWriter_write freshWriter [CHR ''a'', CR, LF, CHR ''b''] None 0 0) \<noteq>
     [CHR ''a'', LF, CHR ''b'']"
  by (simp add: write_content addIndent_Cons isBreak_def freshWriter_def SourceMapWriter_new_def
      Writer_new_def Writer.extend_def SourceMapWriter.fields_def)




section \<open>The column after a line break\<close>

text \<open>
  C2, with the input where the code leaves it.  After a write of a text without a line
  break the column is the old column plus the length of the text.  After a write of a
  text with a line break it is the length of the text after the last line break, plus
  the length of the indent string, plus one.  So a new writer that writes \<open>ab\<close>, a line
  feed and \<open>cd\<close> stores the column 3, although the text after the line break has length
  2 and there is no indent; the mapping point of the next write is therefore at column
  3 of line 1, one beyond the column where its text is rendered.
\<close>

theorem column_after_break_off_by_one:
  "currentColumn (SourceMapWriter_write w cs sourceFile srcLine srcColumn) =
     (if \<exists>c\<in>set cs. isBreak c
      then int (length (lastLine cs)) + int (length (indentString w)) + 1
      else currentColumn w + int (length cs)) \<and>
   currentColumn (SourceMapWriter_write freshWriter (''ab'' @ [LF] @ ''cd'') None 0 0) = 3 \<and>
   content (SourceMapWriter_write freshWriter (''ab'' @ [LF] @ ''cd'') None 0 0) = ''ab'' @ [LF] @ ''cd'' \<and>
   length (lastLine (''ab'' @ [LF] @ ''cd'')) = 2 \<and>
   mappings (smBuilder (SourceMapWriter_write
      (SourceMapWriter_write freshWriter (''ab'' @ [LF] @ ''cd'') None 0 0) ''x'' (Some fileA) 0 0)) 1 =
     Some [\<lparr>column = 3, sourceIndex = 0, sourceLine = 0, sourceColumn = 0, nameIndex = None\<rparr>]"
proof -
  have "currentColumn (SourceMapWriter_write w cs sourceFile srcLine srcColumn) =
     (if \<exists>c\<in>set cs. isBreak c
      then int (length (lastLine cs)) + int (length (indentString w)) + 1
      else currentColumn w + int (length cs))"
    by (simp add: write_currentColumn)
  moreover have
   "currentColumn (SourceMapWriter_write freshWriter (''ab'' @ [LF] @ ''cd'') None 0 0) = 3 \<and>
    content (SourceMapWriter_write freshWriter (''ab'' @ [LF] @ ''cd'') None 0 0) = ''ab'' @ [LF] @ ''cd'' \<and>
    length (lastLine (''ab'' @ [LF] @ ''cd'')) = 2 \<and>
    mappings (smBuilder (SourceMapWriter_write
      (SourceMapWriter_write freshWriter (''ab'' @ [LF] @ ''cd'') None 0 0) ''x'' (Some fileA) 0 0)) 1 =
     Some [\<lparr>column = 3, sourceIndex = 0, sourceLine = 0, sourceColumn = 0, nameIndex = None\<rparr>]"
    by (simp add: write_eval example_defs lastLine_def isBreak_def)
  ultimately show ?thesis by blast
qed


section \<open>Growing the buffer\<close>

text \<open>
  C8, with the inputs where the code leaves it.  Take a stream whose length is within
  its capacity (of at least 1).  If the length needed is at most twice the capacity
  minus one, \<open>_write\<close> does what the claim says: the new length is within the new
  capacity and \<open>toBuffer(0, length)\<close> yields the old bytes followed by the chunk.  If the
  length needed is larger, \<open>_write\<close> leaves the stream with a capacity of twice the old
  one minus one, which is below its new length; \<open>toBuffer(0, length)\<close> then yields the
  old bytes, the part of the chunk that fitted, and bytes that were never written in
  place of the rest of the chunk.
\<close>

theorem write_beyond_twice_capacity:
  assumes "1 \<le> capacity s" and "bufLength s \<le> capacity s"
  shows "\<exists>s'. BufferStream_write junk s chunk = Inr s' \<and>
     bufLength s' = bufLength s + length chunk \<and>
     (if bufLength s + length chunk \<le> 2 * capacity s - 1
      then bufLength s' \<le> capacity s' \<and>
           toBuffer junk s' 0 (bufLength s') = Inr (take (bufLength s) (buffer s) @ chunk)
      else capacity s' = 2 * capacity s - 1 \<and> capacity s' < bufLength s' \<and>
           toBuffer junk s' 0 (bufLength s') =
             Inr (take (bufLength s) (buffer s) @ take (2 * capacity s - 1 - bufLength s) chunk @
                  map junk [2 * capacity s - 1 ..< bufLength s + length chunk]))"
proof (cases "bufLength s + length chunk \<le> 2 * capacity s - 1")
  case True
  from write_within [OF assms True, of junk] True show ?thesis
    by auto
next
  case False
  then have "2 * capacity s - 1 < bufLength s + length chunk"
    by simp
  from write_overflow [OF assms this, of junk] False show ?thesis
    by auto
qed

theorem write_beyond_twice_capacity_witness:
  "1 \<le> capacity (BufferStream_new (\<lambda>_. 0)) \<and>
   bufLength (BufferStream_new (\<lambda>_. 0)) \<le> capacity (BufferStream_new (\<lambda>_. 0)) \<and>
   (\<exists>s'. BufferStream_write (\<lambda>_. 0) (BufferStream_new (\<lambda>_. 0)) (replicate 262144 1) = Inr s' \<and>
      bufLength s' = 262144 \<and> capacity s' = 262143 \<and>
      toBuffer (\<lambda>_. 0) s' 0 (bufLength s') = Inr (replicate 262143 1 @ [0]))"
proof -
  have c: "capacity (BufferStream_new (\<lambda>_. 0)) = 131072" "bufLength (BufferStream_new (\<lambda>_. 0)) = 0"
    by (simp_all add: BufferStream_new_def capacity_def)
  have up: "[262143..<262144] = [262143 :: nat]"
    by (simp add: upt_rec_numeral)
  show ?thesis
    using write_beyond_twice_capacity [of "BufferStream_new (\<lambda>_. 0)" "\<lambda>_. 0" "replicate 262144 1"]
    by (auto simp: c up)
qed

text \<open>
  C9, as far as it holds.  Neither \<open>ensureCapacity\<close> nor \<open>_write\<close> lowers the capacity
  of a stream with a capacity of at least 1 (\<open>toBuffer\<close> does not change the stream at
  all); but after \<open>_write\<close> the length is within the capacity only if the length needed
  was at most twice the old capacity minus one.
\<close>

theorem write_capacity_and_length:
  assumes "1 \<le> capacity s"
  shows "(\<exists>s'. ensureCapacity junk s n = Inr s' \<and> capacity s \<le> capacity s' \<and>
            bufLength s' = bufLength s) \<and>
         (\<exists>s'. BufferStream_write junk s chunk = Inr s' \<and> capacity s \<le> capacity s' \<and>
            bufLength s' = bufLength s + length chunk \<and>
            (bufLength s' \<le> capacity s' \<longleftrightarrow>
               bufLength s + length chunk \<le> 2 * capacity s - 1))"
proof
  show "\<exists>s'. ensureCapacity junk s n = Inr s' \<and> capacity s \<le> capacity s' \<and>
            bufLength s' = bufLength s"
    using assms by (auto simp: ensureCapacity_def Let_def capacity_def min_def)
  show "\<exists>s'. BufferStream_write junk s chunk = Inr s' \<and> capacity s \<le> capacity s' \<and>
            bufLength s' = bufLength s + length chunk \<and>
            (bufLength s' \<le> capacity s' \<longleftrightarrow>
               bufLength s + length chunk \<le> 2 * capacity s - 1)"
    using assms
    by (auto simp: BufferStream_write_def ensureCapacity_def Let_def capacity_def min_def)
qed

theorem write_capacity_and_length_witness:
  "1 \<le> capacity (BufferStream_new (\<lambda>_. 0)) \<and>
   (\<exists>s'. BufferStream_write (\<lambda>_. 0) (BufferStream_new (\<lambda>_. 0)) (replicate 262144 1) = Inr s' \<and>
      131072 \<le> capacity s' \<and> bufLength s' = 262144 \<and> \<not> bufLength s' \<le> capacity s')"
proof -
  have c: "capacity (BufferStream_new (\<lambda>_. 0)) = 131072" "bufLength (BufferStream_new (\<lambda>_. 0)) = 0"
    by (simp_all add: BufferStream_new_def capacity_def)
  show ?thesis
    using write_capacity_and_length [of "BufferStream_new (\<lambda>_. 0)" "\<lambda>_. 0" 0 "replicate 262144 1"]
    by (simp add: c)
qed


section \<open>Where mapping points are added\<close>

text \<open>
  C5, as the code has it.  A write without a source file leaves the sources and the
  mapping table as they are, advances the line by the number of line breaks and, when
  the text has no line break, the column by the length of the text.  A write of a text
  that is not empty with a source file, with or without a source map of its own, runs
  the code that adds points (lines 176-217) at index 0, unless the text starts with a
  line break, and once behind every line break, and nowhere else: its mapping table is
  the one of \<open>emitAfterBreaks\<close>.  Every such run puts at least one new point at the end
  of the current line, keeps the points that the line had, and leaves all other lines
  as they are.  So a text that is not empty and has no line break gives exactly one
  run; for a source file without a source map of its own the table ends with the point
  of the origin on the current line (unless the text starts with a line break) and one
  point after each line break; with no line break exactly one point is added.
\<close>

theorem mapping_emission:
  "smBuilder (SourceMapWriter_write w cs None srcLine srcColumn) = smBuilder w \<and>
   currentLine (SourceMapWriter_write w cs None srcLine srcColumn) = currentLine w + countBreaks cs \<and>
   (countBreaks cs = 0 \<longrightarrow>
      currentColumn (SourceMapWriter_write w cs None srcLine srcColumn) =
        currentColumn w + int (length cs)) \<and>
   (cs \<noteq> [] \<longrightarrow>
      smBuilder (SourceMapWriter_write w cs (Some f) srcLine srcColumn) =
        smBuilder (emitAfterBreaks f cs (lastLineBreakOf cs) cs 0 srcLine
          (if isBreak (hd cs) then w
           else addMapping cs (lastLineBreakOf cs) f 0 srcLine srcColumn w))) \<and>
   (\<exists>new. new \<noteq> [] \<and>
      mappingsOf (smBuilder (addMapping cs lastLineBreak f i srcLine srcColumn w)) (currentLine w) =
        mappingsOf (smBuilder w) (currentLine w) @ new) \<and>
   (l \<noteq> currentLine w \<longrightarrow>
      mappingsOf (smBuilder (addMapping cs lastLineBreak f i srcLine srcColumn w)) l =
        mappingsOf (smBuilder w) l) \<and>
   (cs \<noteq> [] \<and> countBreaks cs = 0 \<longrightarrow>
      smBuilder (SourceMapWriter_write w cs (Some f) srcLine srcColumn) =
        smBuilder (addMapping cs (- 1) f 0 srcLine srcColumn w)) \<and>
   (cs \<noteq> [] \<and> sourceMapBuilder f = None \<longrightarrow>
      smBuilder (SourceMapWriter_write w cs (Some f) srcLine srcColumn) =
        (case addSource (smBuilder w) (originPath f) of
           (k, b1) \<Rightarrow>
             pushBreaks k (int (length (indentString w))) cs (currentLine w) srcLine
               (if isBreak (hd cs) then b1
                else pushMapping b1 (currentLine w)
                       (originMapping (currentColumn w) k srcLine srcColumn)))) \<and>
   (cs \<noteq> [] \<and> countBreaks cs = 0 \<and> sourceMapBuilder f = None \<longrightarrow>
      smBuilder (SourceMapWriter_write w cs (Some f) srcLine srcColumn) =
        (case addSource (smBuilder w) (originPath f) of
           (k, b1) \<Rightarrow>
             pushMapping b1 (currentLine w)
               (originMapping (currentColumn w) k srcLine srcColumn)))"
proof -
  obtain k b1 where src: "addSource (smBuilder w) (originPath f) = (k, b1)"
    by (cases "addSource (smBuilder w) (originPath f)")
  have leaf: "smBuilder (SourceMapWriter_write w cs (Some f) srcLine srcColumn) =
        pushBreaks k (int (length (indentString w))) cs (currentLine w) srcLine
          (if isBreak (hd cs) then b1
           else pushMapping b1 (currentLine w) (originMapping (currentColumn w) k srcLine srcColumn))"
    if "cs \<noteq> []" "sourceMapBuilder f = None"
    using write_leaf [OF that(2) that(1) src] .
  have one: "smBuilder (SourceMapWriter_write w cs (Some f) srcLine srcColumn) =
        pushMapping b1 (currentLine w) (originMapping (currentColumn w) k srcLine srcColumn)"
    if "cs \<noteq> []" "countBreaks cs = 0" "sourceMapBuilder f = None"
  proof -
    have nb: "\<forall>c\<in>set cs. \<not> isBreak c"
      using that(2) by (simp add: countBreaks_zero)
    then have "\<not> isBreak (hd cs)"
      using that(1) by simp
    then show ?thesis
      using leaf [OF that(1) that(3)] nb by (simp add: pushBreaks_none)
  qed
  have emis: "smBuilder (SourceMapWriter_write w cs (Some f) srcLine srcColumn) =
        smBuilder (emitAfterBreaks f cs (lastLineBreakOf cs) cs 0 srcLine
          (if isBreak (hd cs) then w
           else addMapping cs (lastLineBreakOf cs) f 0 srcLine srcColumn w))"
    if "cs \<noteq> []"
    using that by (rule write_emissions)
  note app = addMapping_appends [of cs lastLineBreak f i srcLine srcColumn w]
  note oth = addMapping_other_lines [of l w cs lastLineBreak f i srcLine srcColumn]
  have first: "smBuilder (SourceMapWriter_write w cs None srcLine srcColumn) = smBuilder w \<and>
   currentLine (SourceMapWriter_write w cs None srcLine srcColumn) = currentLine w + countBreaks cs \<and>
   (countBreaks cs = 0 \<longrightarrow>
      currentColumn (SourceMapWriter_write w cs None srcLine srcColumn) =
        currentColumn w + int (length cs))"
    by (simp add: write_silent write_currentLine write_currentColumn countBreaks_zero)
  have single: "smBuilder (SourceMapWriter_write w cs (Some f) srcLine srcColumn) =
        smBuilder (addMapping cs (- 1) f 0 srcLine srcColumn w)"
    if "cs \<noteq> []" "countBreaks cs = 0"
    using that by (simp add: write_single_emission countBreaks_zero)
  show ?thesis
    using first emis app oth single leaf one by (simp only: src prod.case) blast
qed

theorem mapping_emission_witness:
  "''ab'' \<noteq> [] \<and> countBreaks ''ab'' = 0 \<and> sourceMapBuilder fileA = None \<and>
   1 \<noteq> currentLine freshWriter \<and>
   currentColumn (SourceMapWriter_write freshWriter ''ab'' None 7 4) = 2 \<and>
   smBuilder (SourceMapWriter_write freshWriter ''ab'' (Some fileA) 7 4) =
     \<lparr>builderFile = Some ''out.js'', sources = [Some ''a.js''],
      mappings = [0 \<mapsto> [\<lparr>column = 0, sourceIndex = 0, sourceLine = 7, sourceColumn = 4,
                             nameIndex = None\<rparr>]]\<rparr> \<and>
   mappingsOf (smBuilder (addMapping ''ab'' (- 1) fileA 0 7 4 freshWriter)) 1 =
     mappingsOf (smBuilder freshWriter) 1 \<and>
   ''ab'' @ [LF] @ ''ef'' \<noteq> [] \<and>
   smBuilder (SourceMapWriter_write freshWriter (''ab'' @ [LF] @ ''ef'') (Some fileB) 0 0) =
     \<lparr>builderFile = Some ''out.js'', sources = [Some ''b.js'', Some ''o.js''],
      mappings =
        [0 \<mapsto> [\<lparr>column = 0, sourceIndex = 1, sourceLine = 0, sourceColumn = 10, nameIndex = None\<rparr>,
                \<lparr>column = 2, sourceIndex = 1, sourceLine = 0, sourceColumn = 12, nameIndex = None\<rparr>,
                \<lparr>column = 5, sourceIndex = 1, sourceLine = 0, sourceColumn = 15, nameIndex = None\<rparr>],
         1 \<mapsto> [\<lparr>column = 0, sourceIndex = 1, sourceLine = 1, sourceColumn = 0, nameIndex = None\<rparr>,
                \<lparr>column = 2, sourceIndex = 1, sourceLine = 1, sourceColumn = 2, nameIndex = None\<rparr>]]\<rparr>"
proof -
  have h: "''ab'' \<noteq> []" "countBreaks ''ab'' = 0" "sourceMapBuilder fileA = None"
    by (simp_all add: countBreaks_Cons isBreak_def CR_def LF_def fileA_def)
  have w0: "currentColumn freshWriter = 0" "currentLine freshWriter = 0"
    "indentString freshWriter = []"
    "smBuilder freshWriter = \<lparr>builderFile = Some ''out.js'', sources = [], mappings = Map.empty\<rparr>"
    by (simp_all add: freshWriter_def outFile_def SourceMapWriter_new_def Writer_new_def
        Writer.extend_def SourceMapWriter.fields_def)
  have l1: "1 \<noteq> currentLine freshWriter"
    by (simp add: w0)
  have p: "originPath fileA = Some ''a.js''"
    by (simp add: originPath_def truthy_def fileA_def)
  note T = mapping_emission [of freshWriter "''ab''" 7 4 fileA "- 1" 0 1]
  have "currentColumn (SourceMapWriter_write freshWriter ''ab'' None 7 4) =
        currentColumn freshWriter + int (length ''ab'')"
    using T h by blast
  then have col: "currentColumn (SourceMapWriter_write freshWriter ''ab'' None 7 4) = 2"
    by (simp add: w0)
  have "smBuilder (SourceMapWriter_write freshWriter ''ab'' (Some fileA) 7 4) =
        (case addSource (smBuilder freshWriter) (originPath fileA) of
           (k, b1) \<Rightarrow> pushMapping b1 (currentLine freshWriter)
                        (originMapping (currentColumn freshWriter) k 7 4))"
    using T h by blast
  then have one: "smBuilder (SourceMapWriter_write freshWriter ''ab'' (Some fileA) 7 4) =
     \<lparr>builderFile = Some ''out.js'', sources = [Some ''a.js''],
      mappings = [0 \<mapsto> [\<lparr>column = 0, sourceIndex = 0, sourceLine = 7, sourceColumn = 4,
                             nameIndex = None\<rparr>]]\<rparr>"
    by (simp add: w0 p addSource_def pushMapping_def mappingsOf_def originMapping_def)
  have oth: "mappingsOf (smBuilder (addMapping ''ab'' (- 1) fileA 0 7 4 freshWriter)) 1 =
     mappingsOf (smBuilder freshWriter) 1"
    using T l1 by blast
  let ?cs = "''ab'' @ [LF] @ ''ef''"
  have ne: "?cs \<noteq> []" by simp
  have llb: "lastLineBreakOf ?cs = 2"
    by (simp add: lastLineBreakOf_def CR_def LF_def)
  note T2 = mapping_emission [of freshWriter ?cs 0 0 fileB "- 1" 0 1]
  have "smBuilder (SourceMapWriter_write freshWriter ?cs (Some fileB) 0 0) =
        smBuilder (emitAfterBreaks fileB ?cs (lastLineBreakOf ?cs) ?cs 0 0
          (if isBreak (hd ?cs) then freshWriter
           else addMapping ?cs (lastLineBreakOf ?cs) fileB 0 0 0 freshWriter))"
    using T2 ne by blast
  also have "\<dots> =
     \<lparr>builderFile = Some ''out.js'', sources = [Some ''b.js'', Some ''o.js''],
      mappings =
        [0 \<mapsto> [\<lparr>column = 0, sourceIndex = 1, sourceLine = 0, sourceColumn = 10, nameIndex = None\<rparr>,
                \<lparr>column = 2, sourceIndex = 1, sourceLine = 0, sourceColumn = 12, nameIndex = None\<rparr>,
                \<lparr>column = 5, sourceIndex = 1, sourceLine = 0, sourceColumn = 15, nameIndex = None\<rparr>],
         1 \<mapsto> [\<lparr>column = 0, sourceIndex = 1, sourceLine = 1, sourceColumn = 0, nameIndex = None\<rparr>,
                \<lparr>column = 2, sourceIndex = 1, sourceLine = 1, sourceColumn = 2, nameIndex = None\<rparr>]]\<rparr>"
    by (simp only: llb) (simp add: emitAfterBreaks_Cons isBreak_def nextLine_def CR_def LF_def addMapping_def
        addSource_def originPath_def truthy_def Let_def mappingsAt_def sourceAt_def
        SourceMapWriter_new_def Writer_new_def Writer.extend_def SourceMapWriter.fields_def
        example_defs fileB_def mapB_def)
  finally have two: "smBuilder (SourceMapWriter_write freshWriter ?cs (Some fileB) 0 0) =
     \<lparr>builderFile = Some ''out.js'', sources = [Some ''b.js'', Some ''o.js''],
      mappings =
        [0 \<mapsto> [\<lparr>column = 0, sourceIndex = 1, sourceLine = 0, sourceColumn = 10, nameIndex = None\<rparr>,
                \<lparr>column = 2, sourceIndex = 1, sourceLine = 0, sourceColumn = 12, nameIndex = None\<rparr>,
                \<lparr>column = 5, sourceIndex = 1, sourceLine = 0, sourceColumn = 15, nameIndex = None\<rparr>],
         1 \<mapsto> [\<lparr>column = 0, sourceIndex = 1, sourceLine = 1, sourceColumn = 0, nameIndex = None\<rparr>,
                \<lparr>column = 2, sourceIndex = 1, sourceLine = 1, sourceColumn = 2, nameIndex = None\<rparr>]]\<rparr>" .
  from h l1 col one oth ne two show ?thesis by blast
qed

text \<open>
  The claim C5 as it is stated fails for the empty text: it has no line break, a source
  file is given, and no mapping point is added.
\<close>

theorem empty_write_emits_nothing:
  "countBreaks [] = 0 \<and>
   dom (mappings (smBuilder (SourceMapWriter_write freshWriter [] (Some fileA) 0 0))) = {}"
  by (simp add: write_eval example_defs)


section \<open>Copying the points of the origin map\<close>

text \<open>
  C3, at the inputs where the code leaves it.  The file \<open>b.js\<close> has points at the
  columns 0, 2 and 5 of its line 0.  Writing the two characters \<open>cd\<close> for line 0,
  column 2 of it (one line, no line break) skips the point at column 0, which lies
  before the origin column, but copies the point at column 5 (to column 3), although
  the write takes only the columns 2 and 3 of that line: the test of line 194 needs
  \<open>i === lastLineBreak\<close>, which never holds for a text without a line break.  Writing
  \<open>ab\<close>, a line feed and \<open>ef\<close> for line 0, column 0 copies, on the last line, the
  points at the columns 0 and 2 of line 1 of \<open>b.js\<close> and leaves out the one at column 3:
  the point at column 2, the end of the two characters taken from that line, is copied.
\<close>

theorem last_line_trim_misses:
  "mappingsOf (smBuilder (SourceMapWriter_write freshWriter ''cd'' (Some fileB) 0 2)) 0 =
     [\<lparr>column = 0, sourceIndex = 1, sourceLine = 0, sourceColumn = 12, nameIndex = None\<rparr>,
      \<lparr>column = 3, sourceIndex = 1, sourceLine = 0, sourceColumn = 15, nameIndex = None\<rparr>] \<and>
   mappingsOf (smBuilder (SourceMapWriter_write freshWriter (''ab'' @ [LF] @ ''ef'') (Some fileB) 0 0)) 1 =
     [\<lparr>column = 0, sourceIndex = 1, sourceLine = 1, sourceColumn = 0, nameIndex = None\<rparr>,
      \<lparr>column = 2, sourceIndex = 1, sourceLine = 1, sourceColumn = 2, nameIndex = None\<rparr>]"
  by (simp add: write_eval example_defs fileB_def mapB_def)

text \<open>
  C7, at the input where the code leaves it.  Writing \<open>ab\<close> for line 0, column 0 of
  \<open>b.js\<close> copies all three points of that line (columns 0, 2 and 5), since a text
  without a line break is not trimmed; the column is then 2, and the next write adds
  its point at column 2 behind the point at column 5.  The columns of line 0 are
  0, 2, 5, 2: not ascending.
\<close>

theorem line_not_ascending:
  "map column (mappingsOf (smBuilder (SourceMapWriter_write
      (SourceMapWriter_write freshWriter ''ab'' (Some fileB) 0 0) ''cd'' (Some fileA) 0 0)) 0) =
     [0, 2, 5, 2] \<and>
   \<not> sorted_wrt (<) [0, 2, 5, 2 :: int]"
  by (simp add: write_eval example_defs fileB_def mapB_def)


section \<open>Composition through the origin map\<close>





end
